theory Spec2Isabelle
  imports Main "HOL-Library.AList"
begin

section \<open>The concurrent map of 159-GoSync/09-Map/sync/map.go, run sequentially\<close>

text \<open>
  The model follows \<^verbatim>\<open>map.go\<close> function by function. One goroutine runs at a time, so
  every atomic operation sees the memory its predecessor left, and a compare-and-swap of a
  pointer that was just loaded succeeds.

  \<^item> An \<^verbatim>\<open>any\<close> is \<open>'v option\<close>; \<open>None\<close> is the nil interface.
  \<^item> The field \<^verbatim>\<open>entry.p\<close> is a \<open>pointer\<close>: \<open>Nil\<close>, the sentinel \<open>Expunged\<close>, or
    \<open>Ref v\<close>, a pointer to a cell holding \<open>v\<close>.
  \<^item> A \<^verbatim>\<open>*entry\<close> is \<open>nat option\<close>: \<open>None\<close> is the nil pointer and \<open>Some a\<close> the entry
    allocated at address \<open>a\<close>. The memory \<open>mem\<close> maps each address to the \<^verbatim>\<open>p\<close> field of
    the entry that lives there, so an entry shared by the read map and the dirty map is
    one cell; \<open>nxt\<close> is the next address \<^verbatim>\<open>newEntry\<close> hands out.
  \<^item> A \<^verbatim>\<open>map[any]*entry\<close> is an optional association list: \<open>None\<close> is the nil map,
    \<open>Some []\<close> the empty map made by \<^verbatim>\<open>make\<close>. The order of the list is the order in
    which \<^verbatim>\<open>range\<close> visits the map.
  \<^item> A panic is an \<open>error\<close>; every operation returns its outcome together with the
    state it leaves behind, also when it panics.
  \<^item> \<^verbatim>\<open>sync.Mutex\<close> belongs to the Go runtime. It is modelled as the flag \<open>mu\<close>:
    \<^verbatim>\<open>Lock\<close> on a held mutex never returns (the runtime reports a deadlock when no
    other goroutine exists), \<^verbatim>\<open>Unlock\<close> releases it.
  \<^item> \<^verbatim>\<open>misses\<close> is a Go \<^verbatim>\<open>int\<close>, a 64-bit two's complement integer on amd64 and
    arm64. It is an \<open>int\<close> here, and \<^verbatim>\<open>m.misses++\<close> wraps around as the machine does
    (\<open>wrap_int\<close>): from \<open>2 ^ 63 - 1\<close> it goes to \<open>- (2 ^ 63)\<close>.
\<close>

datatype error = NilPointerDereference | AssignmentToNilMap | Deadlock

type_synonym 'v any = "'v option"

datatype 'v pointer = Nil | Expunged | Ref "'v any"

type_synonym entry_ptr = "nat option"

type_synonym 'k gomap = "('k \<times> entry_ptr) list option"

record 'k readOnly =
  ro_m :: "'k gomap"
  amended :: bool

record ('k, 'v) state =
  mu :: bool
  read :: "'k readOnly"
  dirty :: "'k gomap"
  misses :: int
  mem :: "nat \<Rightarrow> 'v pointer"
  nxt :: nat

text \<open>The zero value of \<^verbatim>\<open>Map\<close>: an unlocked mutex, an empty \<^verbatim>\<open>atomic.Value\<close> (whose
  failed type assertion yields the zero \<^verbatim>\<open>readOnly\<close>), a nil dirty map, no misses.\<close>

definition init :: "('k, 'v) state" where
  "init = \<lparr>mu = False, read = \<lparr>ro_m = None, amended = False\<rparr>, dirty = None,
           misses = 0, mem = (\<lambda>_. Nil), nxt = 0\<rparr>"

subsection \<open>Machine integers\<close>

text \<open>The value a 64-bit signed integer holds after an operation whose exact result is
  \<open>x\<close>.\<close>

definition wrap_int :: "int \<Rightarrow> int" where
  "wrap_int x = (x + 2 ^ 63) mod 2 ^ 64 - 2 ^ 63"

subsection \<open>Built-in map operations\<close>

text \<open>\<^verbatim>\<open>e, ok := m[key]\<close>: a nil map and a missing key give the zero value and false.\<close>

definition index :: "'k gomap \<Rightarrow> 'k \<Rightarrow> entry_ptr \<times> bool" where
  "index mp key =
     (case mp of
        None \<Rightarrow> (None, False)
      | Some al \<Rightarrow> (case map_of al key of None \<Rightarrow> (None, False) | Some e \<Rightarrow> (e, True)))"

text \<open>\<^verbatim>\<open>m[key] = e\<close>: panics on a nil map.\<close>

definition assign :: "'k gomap \<Rightarrow> 'k \<Rightarrow> entry_ptr \<Rightarrow> error + 'k gomap" where
  "assign mp key e =
     (case mp of
        None \<Rightarrow> Inl AssignmentToNilMap
      | Some al \<Rightarrow> Inr (Some (AList.update key e al)))"

text \<open>\<^verbatim>\<open>delete(m, key)\<close>: a no-op on a nil map.\<close>

definition delete_key :: "'k gomap \<Rightarrow> 'k \<Rightarrow> 'k gomap" where
  "delete_key mp key = (case mp of None \<Rightarrow> None | Some al \<Rightarrow> Some (AList.delete key al))"

definition len :: "'k gomap \<Rightarrow> int" where
  "len mp = (case mp of None \<Rightarrow> 0 | Some al \<Rightarrow> int (length al))"

text \<open>The pairs \<^verbatim>\<open>range\<close> visits.\<close>

definition pairs :: "'k gomap \<Rightarrow> ('k \<times> entry_ptr) list" where
  "pairs mp = (case mp of None \<Rightarrow> [] | Some al \<Rightarrow> al)"

subsection \<open>Atomic pointer operations on the field \<^verbatim>\<open>p\<close> of the entry at an address\<close>

definition LoadPointer :: "nat \<Rightarrow> (nat \<Rightarrow> 'v pointer) \<Rightarrow> 'v pointer" where
  "LoadPointer a h = h a"

definition StorePointer :: "nat \<Rightarrow> 'v pointer \<Rightarrow> (nat \<Rightarrow> 'v pointer) \<Rightarrow> (nat \<Rightarrow> 'v pointer)" where
  "StorePointer a new h = h(a := new)"

definition CompareAndSwapPointer ::
  "nat \<Rightarrow> 'v pointer \<Rightarrow> 'v pointer \<Rightarrow> (nat \<Rightarrow> 'v pointer) \<Rightarrow> bool \<times> (nat \<Rightarrow> 'v pointer)" where
  "CompareAndSwapPointer a old new h = (if h a = old then (True, h(a := new)) else (False, h))"

subsection \<open>Methods of \<^verbatim>\<open>entry\<close>\<close>

text \<open>Each method takes the receiver, a \<^verbatim>\<open>*entry\<close>, and the memory. With a nil receiver the
  first thing it evaluates, \<^verbatim>\<open>&e.p\<close>, panics.\<close>

text \<open>\<^verbatim>\<open>entry.load\<close>, lines 153-159.\<close>

fun load :: "entry_ptr \<Rightarrow> (nat \<Rightarrow> 'v pointer) \<Rightarrow> error + ('v any \<times> bool)" where
  "load None h = Inl NilPointerDereference"
| "load (Some a) h =
     (case LoadPointer a h of
        Nil \<Rightarrow> Inr (None, False)
      | Expunged \<Rightarrow> Inr (None, False)
      | Ref v \<Rightarrow> Inr (v, True))"

text \<open>\<^verbatim>\<open>entry.delete\<close>, lines 116-126. The loop goes round again only when the
  compare-and-swap fails.\<close>

function entry_delete ::
  "entry_ptr \<Rightarrow> (nat \<Rightarrow> 'v pointer) \<Rightarrow> error + (('v any \<times> bool) \<times> (nat \<Rightarrow> 'v pointer))" where
  "entry_delete None h = Inl NilPointerDereference"
| "entry_delete (Some a) h =
     (let p = LoadPointer a h in
      if p = Nil \<or> p = Expunged then Inr ((None, False), h)
      else
        let r = CompareAndSwapPointer a p Nil h in
        if fst r then Inr ((case p of Ref v \<Rightarrow> v | _ \<Rightarrow> None, True), snd r)
        else entry_delete (Some a) (snd r))"
  by pat_completeness auto
termination
  by (relation "{}") (auto simp: CompareAndSwapPointer_def LoadPointer_def)

text \<open>\<^verbatim>\<open>entry.tryStore\<close>, lines 164-174.\<close>

function tryStore ::
  "entry_ptr \<Rightarrow> 'v any \<Rightarrow> (nat \<Rightarrow> 'v pointer) \<Rightarrow> error + (bool \<times> (nat \<Rightarrow> 'v pointer))" where
  "tryStore None i h = Inl NilPointerDereference"
| "tryStore (Some a) i h =
     (let p = LoadPointer a h in
      if p = Expunged then Inr (False, h)
      else
        let r = CompareAndSwapPointer a p (Ref i) h in
        if fst r then Inr (True, snd r)
        else tryStore (Some a) i (snd r))"
  by pat_completeness auto
termination
  by (relation "{}") (auto simp: CompareAndSwapPointer_def LoadPointer_def)

text \<open>\<^verbatim>\<open>entry.unexpungeLocked\<close>, lines 179-181.\<close>

fun unexpungeLocked ::
  "entry_ptr \<Rightarrow> (nat \<Rightarrow> 'v pointer) \<Rightarrow> error + (bool \<times> (nat \<Rightarrow> 'v pointer))" where
  "unexpungeLocked None h = Inl NilPointerDereference"
| "unexpungeLocked (Some a) h = Inr (CompareAndSwapPointer a Expunged Nil h)"

text \<open>\<^verbatim>\<open>entry.storeLocked\<close>, lines 186-188.\<close>

fun storeLocked ::
  "entry_ptr \<Rightarrow> 'v any \<Rightarrow> (nat \<Rightarrow> 'v pointer) \<Rightarrow> error + (nat \<Rightarrow> 'v pointer)" where
  "storeLocked None i h = Inl NilPointerDereference"
| "storeLocked (Some a) i h = Inr (StorePointer a (Ref i) h)"

text \<open>\<^verbatim>\<open>entry.tryExpungeLocked\<close>, lines 190-199. The loop \<^verbatim>\<open>for p == nil\<close> goes round
  again only when the compare-and-swap from nil fails.\<close>

function tryExpungeLocked_loop ::
  "nat \<Rightarrow> 'v pointer \<Rightarrow> (nat \<Rightarrow> 'v pointer) \<Rightarrow> bool \<times> (nat \<Rightarrow> 'v pointer)" where
  "tryExpungeLocked_loop a p h =
     (if p = Nil then
        let r = CompareAndSwapPointer a Nil Expunged h in
        if fst r then (True, snd r)
        else tryExpungeLocked_loop a (LoadPointer a (snd r)) (snd r)
      else (p = Expunged, h))"
  by pat_completeness auto
termination
  by (relation "measure (\<lambda>(a, p, h). if p = Nil then 1 else 0)")
     (auto simp: CompareAndSwapPointer_def LoadPointer_def split: if_splits)

fun tryExpungeLocked ::
  "entry_ptr \<Rightarrow> (nat \<Rightarrow> 'v pointer) \<Rightarrow> error + (bool \<times> (nat \<Rightarrow> 'v pointer))" where
  "tryExpungeLocked None h = Inl NilPointerDereference"
| "tryExpungeLocked (Some a) h = Inr (tryExpungeLocked_loop a (LoadPointer a h) h)"

text \<open>\<^verbatim>\<open>newEntry\<close>, lines 201-203: a fresh entry whose \<^verbatim>\<open>p\<close> points to the value.\<close>

definition newEntry :: "'v any \<Rightarrow> ('k, 'v) state \<Rightarrow> entry_ptr \<times> ('k, 'v) state" where
  "newEntry i s = (Some (nxt s), s\<lparr>mem := (mem s)(nxt s := Ref i), nxt := nxt s + 1\<rparr>)"

subsection \<open>The mutex\<close>

definition Lock :: "('k, 'v) state \<Rightarrow> (error + unit) \<times> ('k, 'v) state" where
  "Lock s = (if mu s then (Inl Deadlock, s) else (Inr (), s\<lparr>mu := True\<rparr>))"

definition Unlock :: "('k, 'v) state \<Rightarrow> ('k, 'v) state" where
  "Unlock s = s\<lparr>mu := False\<rparr>"

subsection \<open>Methods of \<^verbatim>\<open>Map\<close>\<close>

text \<open>\<^verbatim>\<open>Map.missLocked\<close>, lines 128-137. The literal \<^verbatim>\<open>readOnly{m: m.dirty}\<close> leaves
  \<^verbatim>\<open>amended\<close> at its zero value.\<close>

definition missLocked :: "('k, 'v) state \<Rightarrow> ('k, 'v) state" where
  "missLocked s =
     (let s1 = s\<lparr>misses := wrap_int (misses s + 1)\<rparr> in
      if misses s1 < len (dirty s1) then s1
      else s1\<lparr>read := \<lparr>ro_m = dirty s1, amended = False\<rparr>, dirty := None, misses := 0\<rparr>)"

text \<open>The loop of \<^verbatim>\<open>Map.dirtyLocked\<close>, lines 146-150, over the pairs still to visit.\<close>

fun dirtyLocked_range ::
  "('k \<times> entry_ptr) list \<Rightarrow> ('k, 'v) state \<Rightarrow> (error + unit) \<times> ('k, 'v) state" where
  "dirtyLocked_range [] s = (Inr (), s)"
| "dirtyLocked_range ((k, e) # rest) s =
     (case tryExpungeLocked e (mem s) of
        Inl err \<Rightarrow> (Inl err, s)
      | Inr (isExpunged, h) \<Rightarrow>
          let s1 = s\<lparr>mem := h\<rparr> in
          if \<not> isExpunged then
            (case assign (dirty s1) k e of
               Inl err \<Rightarrow> (Inl err, s1)
             | Inr d \<Rightarrow> dirtyLocked_range rest (s1\<lparr>dirty := d\<rparr>))
          else dirtyLocked_range rest s1)"

text \<open>\<^verbatim>\<open>Map.dirtyLocked\<close>, lines 139-151.\<close>

definition dirtyLocked :: "('k, 'v) state \<Rightarrow> (error + unit) \<times> ('k, 'v) state" where
  "dirtyLocked s =
     (if dirty s \<noteq> None then (Inr (), s)
      else
        let rd = read s in
        dirtyLocked_range (pairs (ro_m rd)) (s\<lparr>dirty := Some []\<rparr>))"

text \<open>\<^verbatim>\<open>Map.Load\<close>, lines 37-57. The inner \<^verbatim>\<open>read\<close> of line 44 shadows the outer one.\<close>

definition Load :: "'k \<Rightarrow> ('k, 'v) state \<Rightarrow> (error + ('v any \<times> bool)) \<times> ('k, 'v) state" where
  "Load key s =
     (let rd = read s; (e, ok) = index (ro_m rd) key in
      case
        (if \<not> ok \<and> amended rd then
           (case Lock s of
              (Inl err, s') \<Rightarrow> (Inl err, s')
            | (Inr _, s1) \<Rightarrow>
                let rd1 = read s1; (e1, ok1) = index (ro_m rd1) key in
                if \<not> ok1 \<and> amended rd1 then
                  let (e2, ok2) = index (dirty s1) key;
                      s2 = missLocked s1
                  in (Inr (e2, ok2), Unlock s2)
                else (Inr (e1, ok1), Unlock s1))
         else (Inr (e, ok), s))
      of
        (Inl err, s') \<Rightarrow> (Inl err, s')
      | (Inr (e, ok), s') \<Rightarrow>
          if \<not> ok then (Inr (None, False), s')
          else (load e (mem s'), s'))"

text \<open>\<^verbatim>\<open>Map.Store\<close>, lines 60-87.\<close>

definition Store :: "'k \<Rightarrow> 'v any \<Rightarrow> ('k, 'v) state \<Rightarrow> (error + unit) \<times> ('k, 'v) state" where
  "Store key val s =
     (let rd = read s; (e, ok) = index (ro_m rd) key in
      case (if ok then tryStore e val (mem s) else Inr (False, mem s)) of
        Inl err \<Rightarrow> (Inl err, s)
      | Inr (True, h) \<Rightarrow> (Inr (), s\<lparr>mem := h\<rparr>)
      | Inr (False, h) \<Rightarrow>
         (case Lock (s\<lparr>mem := h\<rparr>) of
            (Inl err, s') \<Rightarrow> (Inl err, s')
          | (Inr _, s1) \<Rightarrow>
              let rd1 = read s1; (e1, ok1) = index (ro_m rd1) key in
              if ok1 then
                (case unexpungeLocked e1 (mem s1) of
                   Inl err \<Rightarrow> (Inl err, s1)
                 | Inr (wasExpunged, h1) \<Rightarrow>
                     let s2 = s1\<lparr>mem := h1\<rparr> in
                     (case (if wasExpunged then assign (dirty s2) key e1 else Inr (dirty s2)) of
                        Inl err \<Rightarrow> (Inl err, s2)
                      | Inr d \<Rightarrow>
                          let s3 = s2\<lparr>dirty := d\<rparr> in
                          (case storeLocked e1 val (mem s3) of
                             Inl err \<Rightarrow> (Inl err, s3)
                           | Inr h3 \<Rightarrow> (Inr (), Unlock (s3\<lparr>mem := h3\<rparr>)))))
              else
                let (e2, ok2) = index (dirty s1) key in
                if ok2 then
                  (case storeLocked e2 val (mem s1) of
                     Inl err \<Rightarrow> (Inl err, s1)
                   | Inr h2 \<Rightarrow> (Inr (), Unlock (s1\<lparr>mem := h2\<rparr>)))
                else
                  (case
                     (if \<not> amended rd1 then
                        (case dirtyLocked s1 of
                           (Inl err, s') \<Rightarrow> (Inl err, s')
                         | (Inr _, s2) \<Rightarrow>
                             (Inr (), s2\<lparr>read := \<lparr>ro_m = ro_m rd1, amended = True\<rparr>\<rparr>))
                      else (Inr (), s1))
                   of
                     (Inl err, s') \<Rightarrow> (Inl err, s')
                   | (Inr _, s3) \<Rightarrow>
                       let (e3, s4) = newEntry val s3 in
                       (case assign (dirty s4) key e3 of
                          Inl err \<Rightarrow> (Inl err, s4)
                        | Inr d \<Rightarrow> (Inr (), Unlock (s4\<lparr>dirty := d\<rparr>))))))"

text \<open>\<^verbatim>\<open>Map.LoadAndDelete\<close>, lines 89-110. Line 106 reads \<^verbatim>\<open>if !ok\<close>: the entry's
  \<^verbatim>\<open>delete\<close> is called when the key was not found, on the nil \<^verbatim>\<open>e\<close> that the failed lookup
  returned, and a key that was found yields \<^verbatim>\<open>nil, false\<close>.\<close>

definition LoadAndDelete ::
  "'k \<Rightarrow> ('k, 'v) state \<Rightarrow> (error + ('v any \<times> bool)) \<times> ('k, 'v) state" where
  "LoadAndDelete key s =
     (let rd = read s; (e, ok) = index (ro_m rd) key in
      case
        (if \<not> ok \<and> amended rd then
           (case Lock s of
              (Inl err, s') \<Rightarrow> (Inl err, s')
            | (Inr _, s1) \<Rightarrow>
                let rd1 = read s1; (e1, ok1) = index (ro_m rd1) key in
                if \<not> ok1 \<and> amended rd1 then
                  let (e2, ok2) = index (dirty s1) key;
                      s2 = s1\<lparr>dirty := delete_key (dirty s1) key\<rparr>;
                      s3 = missLocked s2
                  in (Inr (e2, ok2), Unlock s3)
                else (Inr (e1, ok1), Unlock s1))
         else (Inr (e, ok), s))
      of
        (Inl err, s') \<Rightarrow> (Inl err, s')
      | (Inr (e, ok), s') \<Rightarrow>
          if \<not> ok then
            (case entry_delete e (mem s') of
               Inl err \<Rightarrow> (Inl err, s')
             | Inr (r, h) \<Rightarrow> (Inr r, s'\<lparr>mem := h\<rparr>))
          else (Inr (None, False), s'))"

text \<open>\<^verbatim>\<open>Map.Delete\<close>, lines 112-114.\<close>

definition Delete :: "'k \<Rightarrow> ('k, 'v) state \<Rightarrow> (error + unit) \<times> ('k, 'v) state" where
  "Delete key s =
     (case LoadAndDelete key s of
        (Inl err, s') \<Rightarrow> (Inl err, s')
      | (Inr _, s') \<Rightarrow> (Inr (), s'))"

subsection \<open>Sequential runs\<close>

text \<open>A run applies a list of calls to a state, one after the other. A call that panics
  leaves the state it reached (the caller may recover), and the run goes on from there.\<close>

datatype ('k, 'v) op = OpLoad 'k | OpStore 'k "'v any" | OpLoadAndDelete 'k | OpDelete 'k

fun step :: "('k, 'v) op \<Rightarrow> ('k, 'v) state \<Rightarrow> ('k, 'v) state" where
  "step (OpLoad k) s = snd (Load k s)"
| "step (OpStore k v) s = snd (Store k v s)"
| "step (OpLoadAndDelete k) s = snd (LoadAndDelete k s)"
| "step (OpDelete k) s = snd (Delete k s)"

definition run :: "('k, 'v) op list \<Rightarrow> ('k, 'v) state \<Rightarrow> ('k, 'v) state" where
  "run ops s = fold step ops s"

text \<open>\<open>writes k c\<close>: the call \<open>c\<close> stores to \<open>k\<close> or deletes \<open>k\<close>.\<close>

fun writes :: "'k \<Rightarrow> ('k, 'v) op \<Rightarrow> bool" where
  "writes k (OpLoad k') = False"
| "writes k (OpStore k' v) = (k' = k)"
| "writes k (OpLoadAndDelete k') = (k' = k)"
| "writes k (OpDelete k') = (k' = k)"

subsection \<open>Auxiliary definitions for the proofs\<close>

text \<open>The lookup function of a map: \<open>lk mp k\<close> is the entry stored under \<open>k\<close>, if any.\<close>

definition lk :: "'k gomap \<Rightarrow> 'k \<Rightarrow> entry_ptr option" where
  "lk mp k = map_of (pairs mp) k"

text \<open>What the loop of \<^verbatim>\<open>dirtyLocked\<close> computes, in closed form: an entry is copied when its
  pointer is neither nil nor expunged, and every nil pointer it visits becomes expunged.\<close>

definition live :: "entry_ptr \<Rightarrow> (nat \<Rightarrow> 'v pointer) \<Rightarrow> bool" where
  "live e h = (case e of None \<Rightarrow> False | Some a \<Rightarrow> (case h a of Ref _ \<Rightarrow> True | _ \<Rightarrow> False))"

fun copy_live :: "('k \<times> entry_ptr) list \<Rightarrow> (nat \<Rightarrow> 'v pointer) \<Rightarrow> ('k \<times> entry_ptr) list \<Rightarrow> ('k \<times> entry_ptr) list" where
  "copy_live [] h d = d"
| "copy_live ((k, e) # rest) h d = copy_live rest h (if live e h then AList.update k e d else d)"

definition expunge_nil :: "entry_ptr list \<Rightarrow> (nat \<Rightarrow> 'v pointer) \<Rightarrow> (nat \<Rightarrow> 'v pointer)" where
  "expunge_nil es h = (\<lambda>a. if h a = Nil \<and> Some a \<in> set es then Expunged else h a)"

text \<open>The invariant of the map between two operations. Apart from the mutex and the
  miss counter: \<^verbatim>\<open>amended\<close> is set exactly when the dirty map exists; keys are unique;
  every stored \<^verbatim>\<open>*entry\<close> is non-nil and was allocated; no entry of the dirty map is
  expunged; an expunged entry of the read map is missing from the dirty map, which then
  exists; any other entry of the read map is shared with the dirty map when that exists;
  and two keys never share an entry.\<close>

definition struct_inv :: "('k, 'v) state \<Rightarrow> bool" where
  "struct_inv s \<longleftrightarrow>
     (amended (read s) \<longleftrightarrow> dirty s \<noteq> None) \<and>
     distinct (map fst (pairs (ro_m (read s)))) \<and>
     distinct (map fst (pairs (dirty s))) \<and>
     (\<forall>k e. lk (ro_m (read s)) k = Some e \<or> lk (dirty s) k = Some e \<longrightarrow>
        (\<exists>a. e = Some a \<and> a < nxt s)) \<and>
     (\<forall>k a. lk (dirty s) k = Some (Some a) \<longrightarrow> mem s a \<noteq> Expunged) \<and>
     (\<forall>k a. lk (ro_m (read s)) k = Some (Some a) \<longrightarrow> mem s a = Expunged \<longrightarrow>
        dirty s \<noteq> None \<and> lk (dirty s) k = None) \<and>
     (\<forall>k a. lk (ro_m (read s)) k = Some (Some a) \<longrightarrow> mem s a \<noteq> Expunged \<longrightarrow>
        dirty s \<noteq> None \<longrightarrow> lk (dirty s) k = Some (Some a)) \<and>
     (\<forall>k1 k2 e. lk (ro_m (read s)) k1 = Some e \<or> lk (dirty s) k1 = Some e \<longrightarrow>
        lk (ro_m (read s)) k2 = Some e \<or> lk (dirty s) k2 = Some e \<longrightarrow> k1 = k2)"

definition map_inv :: "('k, 'v) state \<Rightarrow> bool" where
  "map_inv s \<longleftrightarrow> \<not> mu s \<and> misses s \<le> len (dirty s) \<and> struct_inv s"

text \<open>What \<^verbatim>\<open>Load\<close> answers in a state whose mutex is free, read off the two maps
  (lemma \<open>fst_Load\<close>).\<close>

definition Load_result :: "('k, 'v) state \<Rightarrow> 'k \<Rightarrow> error + ('v any \<times> bool)" where
  "Load_result s k =
     (case lk (ro_m (read s)) k of
        Some e \<Rightarrow> load e (mem s)
      | None \<Rightarrow>
          if amended (read s) then
            (case lk (dirty s) k of Some e \<Rightarrow> load e (mem s) | None \<Rightarrow> Inr (None, False))
          else Inr (None, False))"

text \<open>A state for \<^verbatim>\<open>dirtyLocked\<close> to rebuild the dirty map from: the lock is held, the
  read map holds a deleted entry (key 11), an expunged one (key 12) and a live one (key 13).\<close>

definition rebuild_example :: "(nat, nat) state" where
  "rebuild_example =
     \<lparr>mu = True,
      read = \<lparr>ro_m = Some [(11, Some 4), (12, Some 5), (13, Some 6)], amended = False\<rparr>,
      dirty = None, misses = 0,
      mem = (\<lambda>_. Nil)(5 := Expunged, 6 := Ref (Some 7)), nxt = 7\<rparr>"

section \<open>Lemmas\<close>

lemma wrap_int_exact: "- (2 ^ 63) \<le> x \<Longrightarrow> x < 2 ^ 63 \<Longrightarrow> wrap_int x = x"
  by (simp add: wrap_int_def)

lemma wrap_int_range: "- (2 ^ 63) \<le> wrap_int x \<and> wrap_int x < 2 ^ 63"
  by (simp add: wrap_int_def)

lemma load_Some: "load (Some a) h = (case h a of Ref v \<Rightarrow> Inr (v, True) | _ \<Rightarrow> Inr (None, False))"
  by (simp add: LoadPointer_def split: pointer.splits)

lemma entry_delete_Some:
  "entry_delete (Some a) h =
     (case h a of Ref v \<Rightarrow> Inr ((v, True), h(a := Nil)) | _ \<Rightarrow> Inr ((None, False), h))"
  by (simp add: LoadPointer_def CompareAndSwapPointer_def Let_def split: pointer.splits)

lemma tryStore_Some:
  "tryStore (Some a) i h = (if h a = Expunged then Inr (False, h) else Inr (True, h(a := Ref i)))"
  by (simp add: LoadPointer_def CompareAndSwapPointer_def Let_def)

lemma unexpungeLocked_Some:
  "unexpungeLocked (Some a) h = (if h a = Expunged then Inr (True, h(a := Nil)) else Inr (False, h))"
  by (simp add: CompareAndSwapPointer_def)

lemma tryExpungeLocked_Some:
  "tryExpungeLocked (Some a) h =
     (if h a = Nil then Inr (True, h(a := Expunged)) else Inr (h a = Expunged, h))"
  by (simp add: LoadPointer_def CompareAndSwapPointer_def Let_def)

declare load.simps(2) [simp del] entry_delete.simps(2) [simp del] tryStore.simps(2) [simp del]
  unexpungeLocked.simps(2) [simp del] tryExpungeLocked.simps(2) [simp del]
  tryExpungeLocked_loop.simps [simp del]

lemma index_lk: "index mp k = (case lk mp k of None \<Rightarrow> (None, False) | Some e \<Rightarrow> (e, True))"
  by (simp add: index_def lk_def pairs_def split: option.splits)

lemma lk_None [simp]: "lk None k = None"
  by (simp add: lk_def pairs_def)

lemma lk_Some_Nil [simp]: "lk (Some []) k = None"
  by (simp add: lk_def pairs_def)

lemma lk_update [simp]: "lk (Some (AList.update k e al)) k' = (if k' = k then Some e else lk (Some al) k')"
  by (simp add: lk_def pairs_def update_conv')

lemma lk_delete_key [simp]: "lk (delete_key mp k) k' = (if k' = k then None else lk mp k')"
  by (simp add: lk_def pairs_def delete_key_def delete_conv' split: option.splits)

lemma live_upd_Expunged: "h a = Nil \<Longrightarrow> live e (h(a := Expunged)) = live e h"
  by (auto simp: live_def split: option.splits pointer.splits)

lemma copy_live_upd_Expunged: "h a = Nil \<Longrightarrow> copy_live al (h(a := Expunged)) d = copy_live al h d"
  by (induction al arbitrary: d) (auto simp: live_upd_Expunged)

lemma expunge_nil_Cons:
  "expunge_nil (Some a # es) h =
     expunge_nil es (if h a = Nil then h(a := Expunged) else h)"
  by (rule ext) (auto simp: expunge_nil_def)

lemma expunge_nil_Nil [simp]: "expunge_nil [] h = h"
  by (simp add: expunge_nil_def)

lemma dirtyLocked_range_eq:
  "\<forall>(k, e) \<in> set al. e \<noteq> None \<Longrightarrow> dirty s = Some d \<Longrightarrow>
   dirtyLocked_range al s =
     (Inr (), s\<lparr>mem := expunge_nil (map snd al) (mem s), dirty := Some (copy_live al (mem s) d)\<rparr>)"
proof (induction al arbitrary: s d)
  case Nil
  then show ?case by simp
next
  case (Cons ke rest)
  obtain k e where ke: "ke = (k, e)" by (cases ke)
  with Cons.prems obtain a where e: "e = Some a" by auto
  from Cons.prems have rest: "\<forall>(k, e) \<in> set rest. e \<noteq> None" by simp
  show ?case
  proof (cases "mem s a = Nil")
    case True
    have "dirtyLocked_range (ke # rest) s = dirtyLocked_range rest (s\<lparr>mem := (mem s)(a := Expunged)\<rparr>)"
      using True by (simp add: ke e tryExpungeLocked_Some)
    also have "\<dots> = (Inr (), s\<lparr>mem := expunge_nil (map snd rest) ((mem s)(a := Expunged)),
                 dirty := Some (copy_live rest ((mem s)(a := Expunged)) d)\<rparr>)"
      using Cons.IH [OF rest, of "s\<lparr>mem := (mem s)(a := Expunged)\<rparr>" d] Cons.prems(2)
      by (simp add: fun_upd_def)
    finally show ?thesis
      using True by (simp add: ke e expunge_nil_Cons copy_live_upd_Expunged live_def)
  next
    case False
    show ?thesis
    proof (cases "mem s a = Expunged")
      case True
      have "dirtyLocked_range (ke # rest) s = dirtyLocked_range rest s"
        using True by (simp add: ke e tryExpungeLocked_Some)
      then show ?thesis
        using Cons.IH [OF rest, of s d] Cons.prems(2) True
        by (simp add: ke e expunge_nil_Cons live_def)
    next
      case notexp: False
      have "dirtyLocked_range (ke # rest) s = dirtyLocked_range rest (s\<lparr>dirty := Some (AList.update k e d)\<rparr>)"
        using False notexp Cons.prems(2) by (simp add: ke e tryExpungeLocked_Some assign_def)
      then show ?thesis
        using Cons.IH [OF rest, of "s\<lparr>dirty := Some (AList.update k e d)\<rparr>" "AList.update k e d"] False notexp
        by (simp add: ke e expunge_nil_Cons live_def split: pointer.splits)
    qed
  qed
qed

lemma lk_copy_live:
  "distinct (map fst al) \<Longrightarrow>
   lk (Some (copy_live al h d)) k =
     (case map_of al k of
        None \<Rightarrow> lk (Some d) k
      | Some e \<Rightarrow> if live e h then Some e else lk (Some d) k)"
proof (induction al arbitrary: d)
  case Nil
  then show ?case by simp
next
  case (Cons ke rest)
  obtain k0 e0 where ke: "ke = (k0, e0)" by (cases ke)
  from Cons.prems have d: "distinct (map fst rest)" and nk: "map_of rest k0 = None"
    by (auto simp: ke map_of_eq_None_iff)
  show ?case
    using Cons.IH [OF d] nk by (auto simp: ke split: option.splits)
qed

lemma distinct_copy_live:
  "distinct (map fst d) \<Longrightarrow> distinct (map fst (copy_live al h d))"
  by (induction al arbitrary: d) (auto simp: distinct_update)

lemma struct_inv_mu [simp]: "struct_inv (s\<lparr>mu := b\<rparr>) = struct_inv s"
  by (simp add: struct_inv_def)

lemma struct_inv_misses [simp]: "struct_inv (s\<lparr>misses := n\<rparr>) = struct_inv s"
  by (simp add: struct_inv_def)

lemma missLocked_mu: "missLocked (s\<lparr>mu := b\<rparr>) = (missLocked s)\<lparr>mu := b\<rparr>"
  by (simp add: missLocked_def Let_def)

lemma mem_missLocked [simp]: "mem (missLocked s) = mem s"
  by (simp add: missLocked_def Let_def)

lemma misses_missLocked: "misses (missLocked s) \<le> len (dirty (missLocked s))"
  by (simp add: missLocked_def Let_def len_def)

lemma struct_invI:
  assumes "amended (read s) \<longleftrightarrow> dirty s \<noteq> None"
    and "distinct (map fst (pairs (ro_m (read s))))"
    and "distinct (map fst (pairs (dirty s)))"
    and "\<And>k e. lk (ro_m (read s)) k = Some e \<or> lk (dirty s) k = Some e \<Longrightarrow>
           \<exists>a. e = Some a \<and> a < nxt s"
    and "\<And>k a. lk (dirty s) k = Some (Some a) \<Longrightarrow> mem s a \<noteq> Expunged"
    and "\<And>k a. lk (ro_m (read s)) k = Some (Some a) \<Longrightarrow> mem s a = Expunged \<Longrightarrow>
           dirty s \<noteq> None \<and> lk (dirty s) k = None"
    and "\<And>k a. lk (ro_m (read s)) k = Some (Some a) \<Longrightarrow> mem s a \<noteq> Expunged \<Longrightarrow>
           dirty s \<noteq> None \<Longrightarrow> lk (dirty s) k = Some (Some a)"
    and "\<And>k1 k2 e. lk (ro_m (read s)) k1 = Some e \<or> lk (dirty s) k1 = Some e \<Longrightarrow>
           lk (ro_m (read s)) k2 = Some e \<or> lk (dirty s) k2 = Some e \<Longrightarrow> k1 = k2"
  shows "struct_inv s"
proof -
  have 4: "\<forall>k e. lk (ro_m (read s)) k = Some e \<or> lk (dirty s) k = Some e \<longrightarrow>
        (\<exists>a. e = Some a \<and> a < nxt s)"
    using assms(4) by blast
  have 5: "\<forall>k a. lk (dirty s) k = Some (Some a) \<longrightarrow> mem s a \<noteq> Expunged"
    using assms(5) by blast
  have 6: "\<forall>k a. lk (ro_m (read s)) k = Some (Some a) \<longrightarrow> mem s a = Expunged \<longrightarrow>
        dirty s \<noteq> None \<and> lk (dirty s) k = None"
    using assms(6) by blast
  have 7: "\<forall>k a. lk (ro_m (read s)) k = Some (Some a) \<longrightarrow> mem s a \<noteq> Expunged \<longrightarrow>
        dirty s \<noteq> None \<longrightarrow> lk (dirty s) k = Some (Some a)"
    using assms(7) by blast
  have 8: "\<forall>k1 k2 e. lk (ro_m (read s)) k1 = Some e \<or> lk (dirty s) k1 = Some e \<longrightarrow>
        lk (ro_m (read s)) k2 = Some e \<or> lk (dirty s) k2 = Some e \<longrightarrow> k1 = k2"
    using assms(8) by blast
  show ?thesis
    unfolding struct_inv_def
    by (intro conjI) (rule assms(1) assms(2) assms(3) 4 5 6 7 8)+
qed

lemma inv_amended: "struct_inv s \<Longrightarrow> amended (read s) \<longleftrightarrow> dirty s \<noteq> None"
  unfolding struct_inv_def by (elim conjE)

lemma inv_distinct_read: "struct_inv s \<Longrightarrow> distinct (map fst (pairs (ro_m (read s))))"
  unfolding struct_inv_def by (elim conjE)

lemma inv_distinct_dirty: "struct_inv s \<Longrightarrow> distinct (map fst (pairs (dirty s)))"
  unfolding struct_inv_def by (elim conjE)

lemma inv_valid:
  "struct_inv s \<Longrightarrow> lk (ro_m (read s)) k = Some e \<or> lk (dirty s) k = Some e \<Longrightarrow>
   \<exists>a. e = Some a \<and> a < nxt s"
  unfolding struct_inv_def by (elim conjE allE [of _ k] allE [of _ e] impE)

lemma inv_dirty_live:
  assumes "struct_inv s" and "lk (dirty s) k = Some (Some a)"
  shows "mem s a \<noteq> Expunged"
proof -
  from assms(1) have "\<forall>k a. lk (dirty s) k = Some (Some a) \<longrightarrow> mem s a \<noteq> Expunged"
    unfolding struct_inv_def by (elim conjE)
  with assms(2) show ?thesis by blast
qed

lemma inv_read_expunged:
  assumes "struct_inv s" and "lk (ro_m (read s)) k = Some (Some a)" and "mem s a = Expunged"
  shows "dirty s \<noteq> None \<and> lk (dirty s) k = None"
proof -
  from assms(1) have "\<forall>k a. lk (ro_m (read s)) k = Some (Some a) \<longrightarrow> mem s a = Expunged \<longrightarrow>
        dirty s \<noteq> None \<and> lk (dirty s) k = None"
    unfolding struct_inv_def by (elim conjE)
  with assms(2,3) show ?thesis by blast
qed

lemma inv_read_live:
  assumes "struct_inv s" and "lk (ro_m (read s)) k = Some (Some a)" and "mem s a \<noteq> Expunged"
    and "dirty s \<noteq> None"
  shows "lk (dirty s) k = Some (Some a)"
proof -
  from assms(1) have "\<forall>k a. lk (ro_m (read s)) k = Some (Some a) \<longrightarrow> mem s a \<noteq> Expunged \<longrightarrow>
        dirty s \<noteq> None \<longrightarrow> lk (dirty s) k = Some (Some a)"
    unfolding struct_inv_def by (elim conjE)
  with assms(2,3,4) show ?thesis by blast
qed

lemma inv_inj:
  "struct_inv s \<Longrightarrow> lk (ro_m (read s)) k1 = Some e \<or> lk (dirty s) k1 = Some e \<Longrightarrow>
   lk (ro_m (read s)) k2 = Some e \<or> lk (dirty s) k2 = Some e \<Longrightarrow> k1 = k2"
  unfolding struct_inv_def by (elim conjE allE [of _ k1] allE [of _ k2] allE [of _ e] impE)

lemma pairs_None [simp]: "pairs None = []"
  by (simp add: pairs_def)

lemma pairs_Some [simp]: "pairs (Some al) = al"
  by (simp add: pairs_def)

lemma struct_inv_promote:
  assumes "struct_inv s"
  shows "struct_inv (s\<lparr>read := \<lparr>ro_m = dirty s, amended = False\<rparr>, dirty := None\<rparr>)"
proof (rule struct_invI)
  fix k a
  assume "lk (ro_m (read (s\<lparr>read := \<lparr>ro_m = dirty s, amended = False\<rparr>, dirty := None\<rparr>))) k = Some (Some a)"
    and "mem (s\<lparr>read := \<lparr>ro_m = dirty s, amended = False\<rparr>, dirty := None\<rparr>) a = Expunged"
  then show "dirty (s\<lparr>read := \<lparr>ro_m = dirty s, amended = False\<rparr>, dirty := None\<rparr>) \<noteq> None \<and>
     lk (dirty (s\<lparr>read := \<lparr>ro_m = dirty s, amended = False\<rparr>, dirty := None\<rparr>)) k = None"
    using inv_dirty_live [OF assms, of k a] by simp
next
  fix k1 k2 e
  let ?s = "s\<lparr>read := \<lparr>ro_m = dirty s, amended = False\<rparr>, dirty := None\<rparr>"
  assume "lk (ro_m (read ?s)) k1 = Some e \<or> lk (dirty ?s) k1 = Some e"
    and "lk (ro_m (read ?s)) k2 = Some e \<or> lk (dirty ?s) k2 = Some e"
  then show "k1 = k2"
    using inv_inj [OF assms, of k1 e k2] by simp
next
  fix k e
  let ?s = "s\<lparr>read := \<lparr>ro_m = dirty s, amended = False\<rparr>, dirty := None\<rparr>"
  assume "lk (ro_m (read ?s)) k = Some e \<or> lk (dirty ?s) k = Some e"
  then show "\<exists>a. e = Some a \<and> a < nxt ?s"
    using inv_valid [OF assms, of k e] by simp
qed (use inv_distinct_dirty [OF assms] in simp_all)

lemma struct_inv_missLocked: "struct_inv s \<Longrightarrow> struct_inv (missLocked s)"
  using struct_inv_promote [of s] by (simp add: missLocked_def Let_def)

lemma pairs_delete_key: "pairs (delete_key mp k) = AList.delete k (pairs mp)"
  by (simp add: pairs_def delete_key_def split: option.splits)

lemma delete_key_eq_None [simp]: "delete_key mp k = None \<longleftrightarrow> mp = None"
  by (simp add: delete_key_def split: option.splits)

lemma struct_inv_delete_key:
  assumes "struct_inv s" and "lk (ro_m (read s)) k = None"
  shows "struct_inv (s\<lparr>dirty := delete_key (dirty s) k\<rparr>)"
proof (rule struct_invI)
  let ?s = "s\<lparr>dirty := delete_key (dirty s) k\<rparr>"
  show "amended (read ?s) \<longleftrightarrow> dirty ?s \<noteq> None"
    using inv_amended [OF assms(1)] by simp
  show "distinct (map fst (pairs (ro_m (read ?s))))"
    using inv_distinct_read [OF assms(1)] by simp
  show "distinct (map fst (pairs (dirty ?s)))"
    using inv_distinct_dirty [OF assms(1)] by (simp add: pairs_delete_key distinct_delete)
  show "\<exists>a. e = Some a \<and> a < nxt ?s"
    if "lk (ro_m (read ?s)) k' = Some e \<or> lk (dirty ?s) k' = Some e" for k' e
    using that inv_valid [OF assms(1), of k' e] by (simp split: if_splits)
  show "mem ?s a \<noteq> Expunged" if "lk (dirty ?s) k' = Some (Some a)" for k' a
    using that inv_dirty_live [OF assms(1), of k' a] by (simp split: if_splits)
  show "dirty ?s \<noteq> None \<and> lk (dirty ?s) k' = None"
    if "lk (ro_m (read ?s)) k' = Some (Some a)" "mem ?s a = Expunged" for k' a
    using that inv_read_expunged [OF assms(1), of k' a] by simp
  show "lk (dirty ?s) k' = Some (Some a)"
    if "lk (ro_m (read ?s)) k' = Some (Some a)" "mem ?s a \<noteq> Expunged" "dirty ?s \<noteq> None" for k' a
    using that inv_read_live [OF assms(1), of k' a] assms(2) by auto
  show "k1 = k2"
    if "lk (ro_m (read ?s)) k1 = Some e \<or> lk (dirty ?s) k1 = Some e"
      "lk (ro_m (read ?s)) k2 = Some e \<or> lk (dirty ?s) k2 = Some e" for k1 k2 e
    using that inv_inj [OF assms(1), of k1 e k2] by (simp split: if_splits)
qed

lemma Load_read: "lk (ro_m (read s)) k = Some e \<Longrightarrow> Load k s = (load e (mem s), s)"
  by (simp add: Load_def index_lk)

lemma Load_fast_absent:
  "lk (ro_m (read s)) k = None \<Longrightarrow> \<not> amended (read s) \<Longrightarrow> Load k s = (Inr (None, False), s)"
  by (simp add: Load_def index_lk)

lemma Load_slow:
  "lk (ro_m (read s)) k = None \<Longrightarrow> amended (read s) \<Longrightarrow> \<not> mu s \<Longrightarrow>
   Load k s =
     (case lk (dirty s) k of None \<Rightarrow> Inr (None, False) | Some e \<Rightarrow> load e (mem s),
      (missLocked s)\<lparr>mu := False\<rparr>)"
  by (simp add: Load_def index_lk Lock_def Unlock_def missLocked_mu split: option.splits)

lemma Load_blocked:
  "lk (ro_m (read s)) k = None \<Longrightarrow> amended (read s) \<Longrightarrow> mu s \<Longrightarrow>
   Load k s = (Inl Deadlock, s)"
  by (simp add: Load_def index_lk Lock_def)

lemma LoadAndDelete_read:
  "lk (ro_m (read s)) k = Some e \<Longrightarrow> LoadAndDelete k s = (Inr (None, False), s)"
  by (simp add: LoadAndDelete_def index_lk)

lemma LoadAndDelete_fast_absent:
  "lk (ro_m (read s)) k = None \<Longrightarrow> \<not> amended (read s) \<Longrightarrow>
   LoadAndDelete k s = (Inl NilPointerDereference, s)"
  by (simp add: LoadAndDelete_def index_lk)

lemma missLocked_mu_dirty:
  "missLocked (s\<lparr>mu := b, dirty := d\<rparr>) = (missLocked (s\<lparr>dirty := d\<rparr>))\<lparr>mu := b\<rparr>"
  by (simp add: missLocked_def Let_def)

lemma LoadAndDelete_slow:
  "lk (ro_m (read s)) k = None \<Longrightarrow> amended (read s) \<Longrightarrow> \<not> mu s \<Longrightarrow>
   LoadAndDelete k s =
     (case lk (dirty s) k of None \<Rightarrow> Inl NilPointerDereference | Some e \<Rightarrow> Inr (None, False),
      (missLocked (s\<lparr>dirty := delete_key (dirty s) k\<rparr>))\<lparr>mu := False\<rparr>)"
  by (simp add: LoadAndDelete_def index_lk Lock_def Unlock_def missLocked_mu_dirty
      split: option.splits)

lemma LoadAndDelete_blocked:
  "lk (ro_m (read s)) k = None \<Longrightarrow> amended (read s) \<Longrightarrow> mu s \<Longrightarrow>
   LoadAndDelete k s = (Inl Deadlock, s)"
  by (simp add: LoadAndDelete_def index_lk Lock_def)

lemma Store_read_live:
  "lk (ro_m (read s)) k = Some (Some a) \<Longrightarrow> mem s a \<noteq> Expunged \<Longrightarrow>
   Store k v s = (Inr (), s\<lparr>mem := (mem s)(a := Ref v)\<rparr>)"
  by (simp add: Store_def index_lk tryStore_Some)

lemma Store_read_expunged:
  "lk (ro_m (read s)) k = Some (Some a) \<Longrightarrow> mem s a = Expunged \<Longrightarrow> \<not> mu s \<Longrightarrow>
   dirty s = Some d \<Longrightarrow>
   Store k v s =
     (Inr (), s\<lparr>mu := False, dirty := Some (AList.update k (Some a) d), mem := (mem s)(a := Ref v)\<rparr>)"
  by (simp add: Store_def index_lk tryStore_Some Lock_def Unlock_def unexpungeLocked_Some
      assign_def StorePointer_def)

lemma Store_dirty:
  "lk (ro_m (read s)) k = None \<Longrightarrow> lk (dirty s) k = Some (Some a) \<Longrightarrow> \<not> mu s \<Longrightarrow>
   Store k v s = (Inr (), s\<lparr>mu := False, mem := (mem s)(a := Ref v)\<rparr>)"
  by (simp add: Store_def index_lk Lock_def Unlock_def StorePointer_def)

lemma Store_new_amended:
  "lk (ro_m (read s)) k = None \<Longrightarrow> lk (dirty s) k = None \<Longrightarrow> amended (read s) \<Longrightarrow>
   dirty s = Some d \<Longrightarrow> \<not> mu s \<Longrightarrow>
   Store k v s =
     (Inr (), s\<lparr>mu := False, dirty := Some (AList.update k (Some (nxt s)) d),
                 mem := (mem s)(nxt s := Ref v), nxt := nxt s + 1\<rparr>)"
  by (simp add: Store_def index_lk Lock_def Unlock_def newEntry_def assign_def)

lemma Store_new_fresh:
  "lk (ro_m (read s)) k = None \<Longrightarrow> \<not> amended (read s) \<Longrightarrow> dirty s = None \<Longrightarrow> \<not> mu s \<Longrightarrow>
   \<forall>(k, e) \<in> set (pairs (ro_m (read s))). e \<noteq> None \<Longrightarrow>
   Store k v s =
     (Inr (), s\<lparr>mu := False, read := \<lparr>ro_m = ro_m (read s), amended = True\<rparr>,
                 dirty := Some (AList.update k (Some (nxt s))
                            (copy_live (pairs (ro_m (read s))) (mem s) [])),
                 mem := (expunge_nil (map snd (pairs (ro_m (read s)))) (mem s))(nxt s := Ref v),
                 nxt := nxt s + 1\<rparr>)"
  by (simp add: Store_def index_lk Lock_def Unlock_def newEntry_def assign_def dirtyLocked_def
      dirtyLocked_range_eq [where d = "[]"] Let_def)

lemma struct_inv_store_live:
  assumes "struct_inv s" and "mem s a \<noteq> Expunged"
  shows "struct_inv (s\<lparr>mem := (mem s)(a := Ref v)\<rparr>)"
proof (rule struct_invI)
  let ?s = "s\<lparr>mem := (mem s)(a := Ref v)\<rparr>"
  show "amended (read ?s) \<longleftrightarrow> dirty ?s \<noteq> None"
    using inv_amended [OF assms(1)] by simp
  show "distinct (map fst (pairs (ro_m (read ?s))))"
    using inv_distinct_read [OF assms(1)] by simp
  show "distinct (map fst (pairs (dirty ?s)))"
    using inv_distinct_dirty [OF assms(1)] by simp
  show "\<exists>a. e = Some a \<and> a < nxt ?s"
    if "lk (ro_m (read ?s)) k' = Some e \<or> lk (dirty ?s) k' = Some e" for k' e
    using that inv_valid [OF assms(1), of k' e] by simp
  show "mem ?s a' \<noteq> Expunged" if "lk (dirty ?s) k' = Some (Some a')" for k' a'
    using that inv_dirty_live [OF assms(1), of k' a'] by simp
  show "dirty ?s \<noteq> None \<and> lk (dirty ?s) k' = None"
    if "lk (ro_m (read ?s)) k' = Some (Some a')" "mem ?s a' = Expunged" for k' a'
    using that inv_read_expunged [OF assms(1), of k' a'] by (simp split: if_splits)
  show "lk (dirty ?s) k' = Some (Some a')"
    if "lk (ro_m (read ?s)) k' = Some (Some a')" "mem ?s a' \<noteq> Expunged" "dirty ?s \<noteq> None" for k' a'
    using that inv_read_live [OF assms(1), of k' a'] assms(2) by (cases "a' = a") simp_all
  show "k1 = k2"
    if "lk (ro_m (read ?s)) k1 = Some e \<or> lk (dirty ?s) k1 = Some e"
      "lk (ro_m (read ?s)) k2 = Some e \<or> lk (dirty ?s) k2 = Some e" for k1 k2 e
    using that inv_inj [OF assms(1), of k1 e k2] by simp
qed

lemma struct_inv_unexpunge:
  assumes "struct_inv s" and rk: "lk (ro_m (read s)) k = Some (Some a)" and "mem s a = Expunged"
    and d: "dirty s = Some d"
  shows "struct_inv (s\<lparr>dirty := Some (AList.update k (Some a) d), mem := (mem s)(a := Ref v)\<rparr>)"
proof (rule struct_invI)
  let ?s = "s\<lparr>dirty := Some (AList.update k (Some a) d), mem := (mem s)(a := Ref v)\<rparr>"
  show "amended (read ?s) \<longleftrightarrow> dirty ?s \<noteq> None"
    using inv_amended [OF assms(1)] d by simp
  show "distinct (map fst (pairs (ro_m (read ?s))))"
    using inv_distinct_read [OF assms(1)] by simp
  show "distinct (map fst (pairs (dirty ?s)))"
    using inv_distinct_dirty [OF assms(1)] d by (simp add: distinct_update)
  show "\<exists>a. e = Some a \<and> a < nxt ?s"
    if "lk (ro_m (read ?s)) k' = Some e \<or> lk (dirty ?s) k' = Some e" for k' e
    using that inv_valid [OF assms(1), of k' e] inv_valid [OF assms(1), of k "Some a"] rk d
    by (auto split: if_splits)
  show "mem ?s a' \<noteq> Expunged" if "lk (dirty ?s) k' = Some (Some a')" for k' a'
    using that inv_dirty_live [OF assms(1), of k' a'] d by (simp split: if_splits)
  show "dirty ?s \<noteq> None \<and> lk (dirty ?s) k' = None"
    if "lk (ro_m (read ?s)) k' = Some (Some a')" "mem ?s a' = Expunged" for k' a'
  proof -
    from that(2) have ne: "a' \<noteq> a" and ex: "mem s a' = Expunged" by (auto split: if_splits)
    from ne that(1) rk have "k' \<noteq> k" by auto
    then show ?thesis
      using inv_read_expunged [OF assms(1), of k' a'] that(1) ex d by simp
  qed
  show "lk (dirty ?s) k' = Some (Some a')"
    if "lk (ro_m (read ?s)) k' = Some (Some a')" "mem ?s a' \<noteq> Expunged" "dirty ?s \<noteq> None" for k' a'
  proof (cases "k' = k")
    case True
    then show ?thesis using that(1) rk by simp
  next
    case False
    with that(1) rk inv_inj [OF assms(1), of k' "Some a'" k] have "a' \<noteq> a" by auto
    then show ?thesis
      using False that inv_read_live [OF assms(1), of k' a'] d by simp
  qed
  show "k1 = k2"
    if "lk (ro_m (read ?s)) k1 = Some e \<or> lk (dirty ?s) k1 = Some e"
      "lk (ro_m (read ?s)) k2 = Some e \<or> lk (dirty ?s) k2 = Some e" for k1 k2 e
    using that inv_inj [OF assms(1), of k1 e k2] inv_inj [OF assms(1), of k1 e k]
      inv_inj [OF assms(1), of k e k2] rk d
    by (auto split: if_splits)
qed

lemma struct_inv_insert_new:
  assumes "struct_inv s" and rk: "lk (ro_m (read s)) k = None" and d: "dirty s = Some d"
  shows "struct_inv (s\<lparr>dirty := Some (AList.update k (Some (nxt s)) d),
                        mem := (mem s)(nxt s := Ref v), nxt := nxt s + 1\<rparr>)"
proof (rule struct_invI)
  let ?s = "s\<lparr>dirty := Some (AList.update k (Some (nxt s)) d),
               mem := (mem s)(nxt s := Ref v), nxt := nxt s + 1\<rparr>"
  show "amended (read ?s) \<longleftrightarrow> dirty ?s \<noteq> None"
    using inv_amended [OF assms(1)] d by simp
  show "distinct (map fst (pairs (ro_m (read ?s))))"
    using inv_distinct_read [OF assms(1)] by simp
  show "distinct (map fst (pairs (dirty ?s)))"
    using inv_distinct_dirty [OF assms(1)] d by (simp add: distinct_update)
  show "\<exists>a. e = Some a \<and> a < nxt ?s"
    if "lk (ro_m (read ?s)) k' = Some e \<or> lk (dirty ?s) k' = Some e" for k' e
    using that inv_valid [OF assms(1), of k' e] d
    by (auto split: if_splits)
  show "mem ?s a' \<noteq> Expunged" if "lk (dirty ?s) k' = Some (Some a')" for k' a'
    using that inv_dirty_live [OF assms(1), of k' a'] d by (simp split: if_splits)
  show "dirty ?s \<noteq> None \<and> lk (dirty ?s) k' = None"
    if "lk (ro_m (read ?s)) k' = Some (Some a')" "mem ?s a' = Expunged" for k' a'
  proof -
    from that(1) rk have "k' \<noteq> k" by auto
    moreover from that(2) have "mem s a' = Expunged" by (simp split: if_splits)
    ultimately show ?thesis
      using inv_read_expunged [OF assms(1), of k' a'] that(1) d by simp
  qed
  show "lk (dirty ?s) k' = Some (Some a')"
    if "lk (ro_m (read ?s)) k' = Some (Some a')" "mem ?s a' \<noteq> Expunged" "dirty ?s \<noteq> None" for k' a'
  proof -
    from that(1) rk have ne: "k' \<noteq> k" by auto
    from that(1) inv_valid [OF assms(1), of k' "Some a'"] have "a' < nxt s" by simp
    then show ?thesis
      using ne that inv_read_live [OF assms(1), of k' a'] d by simp
  qed
  show "k1 = k2"
    if "lk (ro_m (read ?s)) k1 = Some e \<or> lk (dirty ?s) k1 = Some e"
      "lk (ro_m (read ?s)) k2 = Some e \<or> lk (dirty ?s) k2 = Some e" for k1 k2 e
    using that inv_inj [OF assms(1), of k1 e k2] inv_valid [OF assms(1), of k1 e]
      inv_valid [OF assms(1), of k2 e] d
    by (auto split: if_splits)
qed

lemma lk_copy_live_Nil:
  "distinct (map fst (pairs mp)) \<Longrightarrow>
   lk (Some (copy_live (pairs mp) h [])) k =
     (case lk mp k of None \<Rightarrow> None | Some e \<Rightarrow> if live e h then Some e else None)"
proof -
  assume dist: "distinct (map fst (pairs mp))"
  have "lk (Some (copy_live (pairs mp) h [])) k =
     (case map_of (pairs mp) k of
        None \<Rightarrow> lk (Some []) k
      | Some e \<Rightarrow> if live e h then Some e else lk (Some []) k)"
    by (rule lk_copy_live [OF dist])
  also have "\<dots> = (case lk mp k of None \<Rightarrow> None | Some e \<Rightarrow> if live e h then Some e else None)"
    by (simp add: lk_def [of mp] split: option.splits)
  finally show ?thesis .
qed

lemma lk_in_pairs: "lk mp k = Some e \<Longrightarrow> e \<in> set (map snd (pairs mp))"
  unfolding lk_def by (drule map_of_SomeD) force

lemma live_Some: "live (Some a) h \<longleftrightarrow> (\<exists>v. h a = Ref v)"
  by (simp add: live_def split: pointer.splits)

lemma expunge_nil_apply:
  "expunge_nil es h a = (if h a = Nil \<and> Some a \<in> set es then Expunged else h a)"
  by (simp add: expunge_nil_def)

lemma struct_inv_rebuild:
  assumes "struct_inv s" and d: "dirty s = None"
  shows "struct_inv (s\<lparr>read := \<lparr>ro_m = ro_m (read s), amended = True\<rparr>,
                        dirty := Some (copy_live (pairs (ro_m (read s))) (mem s) []),
                        mem := expunge_nil (map snd (pairs (ro_m (read s)))) (mem s)\<rparr>)"
proof (rule struct_invI)
  let ?al = "pairs (ro_m (read s))"
  let ?s = "s\<lparr>read := \<lparr>ro_m = ro_m (read s), amended = True\<rparr>,
               dirty := Some (copy_live ?al (mem s) []),
               mem := expunge_nil (map snd ?al) (mem s)\<rparr>"
  note dr = inv_distinct_read [OF assms(1)]
  note lkc = lk_copy_live_Nil [OF dr]
  show "amended (read ?s) \<longleftrightarrow> dirty ?s \<noteq> None"
    by simp
  show "distinct (map fst (pairs (ro_m (read ?s))))"
    using dr by simp
  show "distinct (map fst (pairs (dirty ?s)))"
    by (simp add: distinct_copy_live)
  show "\<exists>a. e = Some a \<and> a < nxt ?s"
    if "lk (ro_m (read ?s)) k' = Some e \<or> lk (dirty ?s) k' = Some e" for k' e
    using that inv_valid [OF assms(1), of k' e]
    by (auto simp: lkc split: option.splits if_splits)
  show "mem ?s a' \<noteq> Expunged" if "lk (dirty ?s) k' = Some (Some a')" for k' a'
    using that by (auto simp: lkc live_Some expunge_nil_apply split: option.splits if_splits)
  show "dirty ?s \<noteq> None \<and> lk (dirty ?s) k' = None"
    if "lk (ro_m (read ?s)) k' = Some (Some a')" "mem ?s a' = Expunged" for k' a'
    using that by (auto simp: lkc live_Some expunge_nil_apply split: option.splits if_splits)
  show "lk (dirty ?s) k' = Some (Some a')"
    if "lk (ro_m (read ?s)) k' = Some (Some a')" "mem ?s a' \<noteq> Expunged" "dirty ?s \<noteq> None" for k' a'
  proof -
    from that(1) have rk: "lk (ro_m (read s)) k' = Some (Some a')" by simp
    from lk_in_pairs [OF rk] have "Some a' \<in> set (map snd ?al)" .
    with that(2) have "mem s a' \<noteq> Nil" "mem s a' \<noteq> Expunged"
      by (auto simp: expunge_nil_apply split: if_splits)
    then have "live (Some a') (mem s)"
      by (cases "mem s a'") (simp_all add: live_Some)
    with rk show ?thesis by (simp add: lkc)
  qed
  show "k1 = k2"
    if "lk (ro_m (read ?s)) k1 = Some e \<or> lk (dirty ?s) k1 = Some e"
      "lk (ro_m (read ?s)) k2 = Some e \<or> lk (dirty ?s) k2 = Some e" for k1 k2 e
  proof -
    from that(1) have "lk (ro_m (read s)) k1 = Some e"
      by (auto simp: lkc split: option.splits if_splits)
    moreover from that(2) have "lk (ro_m (read s)) k2 = Some e"
      by (auto simp: lkc split: option.splits if_splits)
    ultimately show ?thesis using inv_inj [OF assms(1), of k1 e k2] by simp
  qed
qed

lemma inv_read_entries:
  assumes "struct_inv s"
  shows "\<forall>(k, e) \<in> set (pairs (ro_m (read s))). e \<noteq> None"
proof (rule ballI)
  fix x
  assume x: "x \<in> set (pairs (ro_m (read s)))"
  obtain k e where ke: "x = (k, e)" by (cases x)
  from x ke inv_distinct_read [OF assms] have "lk (ro_m (read s)) k = Some e"
    by (simp add: lk_def)
  with inv_valid [OF assms, of k e] have "e \<noteq> None" by auto
  then show "case x of (k, e) \<Rightarrow> e \<noteq> None" by (simp add: ke)
qed

lemma map_invI: "\<not> mu s \<Longrightarrow> misses s \<le> len (dirty s) \<Longrightarrow> struct_inv s \<Longrightarrow> map_inv s"
  by (simp add: map_inv_def)

lemma map_inv_struct: "map_inv s \<Longrightarrow> struct_inv s"
  by (simp add: map_inv_def)

lemma map_inv_mu: "map_inv s \<Longrightarrow> \<not> mu s"
  by (simp add: map_inv_def)

lemma map_inv_misses: "map_inv s \<Longrightarrow> misses s \<le> len (dirty s)"
  by (simp add: map_inv_def)

lemma map_inv_unlocked: "map_inv s \<Longrightarrow> s\<lparr>mu := False\<rparr> = s"
  by (simp add: map_inv_def)

lemma map_inv_miss:
  assumes "struct_inv s"
  shows "map_inv ((missLocked s)\<lparr>mu := False\<rparr>)"
proof (rule map_invI)
  show "\<not> mu ((missLocked s)\<lparr>mu := False\<rparr>)" by simp
  show "misses ((missLocked s)\<lparr>mu := False\<rparr>) \<le> len (dirty ((missLocked s)\<lparr>mu := False\<rparr>))"
    using misses_missLocked [of s] by simp
  show "struct_inv ((missLocked s)\<lparr>mu := False\<rparr>)"
    using struct_inv_missLocked [OF assms] by simp
qed

lemma map_inv_Load:
  assumes "map_inv s"
  shows "map_inv (snd (Load k s))"
proof (cases "lk (ro_m (read s)) k")
  case None
  show ?thesis
  proof (cases "amended (read s)")
    case True
    then show ?thesis
      using Load_slow [OF None True map_inv_mu [OF assms]] map_inv_miss [OF map_inv_struct [OF assms]]
      by simp
  next
    case False
    then show ?thesis using Load_fast_absent [OF None False] assms by simp
  qed
next
  case (Some e)
  then show ?thesis using Load_read [OF Some] assms by simp
qed

lemma map_inv_LoadAndDelete:
  assumes "map_inv s"
  shows "map_inv (snd (LoadAndDelete k s))"
proof (cases "lk (ro_m (read s)) k")
  case None
  show ?thesis
  proof (cases "amended (read s)")
    case True
    have "struct_inv (s\<lparr>dirty := delete_key (dirty s) k\<rparr>)"
      by (rule struct_inv_delete_key [OF map_inv_struct [OF assms] None])
    then show ?thesis
      using LoadAndDelete_slow [OF None True map_inv_mu [OF assms]] map_inv_miss
      by simp
  next
    case False
    then show ?thesis using LoadAndDelete_fast_absent [OF None False] assms by simp
  qed
next
  case (Some e)
  then show ?thesis using LoadAndDelete_read [OF Some] assms by simp
qed

lemma snd_Delete: "snd (Delete k s) = snd (LoadAndDelete k s)"
  by (simp add: Delete_def split: prod.splits sum.splits)

lemma map_inv_Delete: "map_inv s \<Longrightarrow> map_inv (snd (Delete k s))"
  by (simp add: snd_Delete map_inv_LoadAndDelete)

lemma length_update_ge: "length d \<le> length (AList.update k e d)"
  by (induction d) auto

lemma len_update_ge: "len (Some d) \<le> len (Some (AList.update k e d))"
  by (simp add: len_def length_update_ge)

lemma len_nonneg: "0 \<le> len mp"
  by (simp add: len_def split: option.splits)

lemma map_inv_Store:
  assumes "map_inv s"
  shows "map_inv (snd (Store k v s))"
proof -
  note si = map_inv_struct [OF assms]
  note nmu = map_inv_mu [OF assms]
  note ms = map_inv_misses [OF assms]
  note unl = map_inv_unlocked [OF assms]
  show ?thesis
  proof (cases "lk (ro_m (read s)) k")
    case None
    show ?thesis
    proof (cases "dirty s")
      case dn: None
      with inv_amended [OF si] have na: "\<not> amended (read s)" by simp
      let ?s1 = "s\<lparr>read := \<lparr>ro_m = ro_m (read s), amended = True\<rparr>,
                    dirty := Some (copy_live (pairs (ro_m (read s))) (mem s) []),
                    mem := expunge_nil (map snd (pairs (ro_m (read s)))) (mem s)\<rparr>"
      have s1: "struct_inv ?s1" by (rule struct_inv_rebuild [OF si dn])
      have "struct_inv (?s1\<lparr>dirty := Some (AList.update k (Some (nxt ?s1))
                 (copy_live (pairs (ro_m (read s))) (mem s) [])),
               mem := (mem ?s1)(nxt ?s1 := Ref v), nxt := nxt ?s1 + 1\<rparr>)"
        by (rule struct_inv_insert_new [OF s1]) (simp_all add: None)
      moreover from ms dn have "misses s \<le> 0" by (simp add: len_def)
      ultimately show ?thesis
        using Store_new_fresh [OF None na dn nmu inv_read_entries [OF si], of v]
          len_nonneg [of "Some (AList.update k (Some (nxt s))
                 (copy_live (pairs (ro_m (read s))) (mem s) []))"]
        by (simp add: map_inv_def unl nmu)
    next
      case (Some d)
      with inv_amended [OF si] have am: "amended (read s)" by simp
      show ?thesis
      proof (cases "lk (dirty s) k")
        case dk: None
        have "struct_inv (s\<lparr>dirty := Some (AList.update k (Some (nxt s)) d),
                        mem := (mem s)(nxt s := Ref v), nxt := nxt s + 1\<rparr>)"
          by (rule struct_inv_insert_new [OF si None Some])
        then show ?thesis
          using Store_new_amended [OF None dk am Some nmu, of v] ms Some
            len_update_ge [of d k "Some (nxt s)"]
          by (simp add: map_inv_def unl nmu)
      next
        case (Some e)
        with inv_valid [OF si, of k e] obtain a where e: "e = Some a" by auto
        from Some e have dk: "lk (dirty s) k = Some (Some a)" by simp
        have "struct_inv (s\<lparr>mem := (mem s)(a := Ref v)\<rparr>)"
          by (rule struct_inv_store_live [OF si inv_dirty_live [OF si dk]])
        then show ?thesis
          using Store_dirty [OF None dk nmu, of v] ms
          by (simp add: map_inv_def unl nmu)
      qed
    qed
  next
    case (Some e)
    with inv_valid [OF si, of k e] obtain a where e: "e = Some a" by auto
    from Some e have rk: "lk (ro_m (read s)) k = Some (Some a)" by simp
    show ?thesis
    proof (cases "mem s a = Expunged")
      case True
      from inv_read_expunged [OF si rk True] obtain d where d: "dirty s = Some d" by auto
      have "struct_inv (s\<lparr>dirty := Some (AList.update k (Some a) d), mem := (mem s)(a := Ref v)\<rparr>)"
        by (rule struct_inv_unexpunge [OF si rk True d])
      then show ?thesis
        using Store_read_expunged [OF rk True nmu d, of v] ms d len_update_ge [of d k "Some a"]
        by (simp add: map_inv_def unl nmu)
    next
      case False
      have "struct_inv (s\<lparr>mem := (mem s)(a := Ref v)\<rparr>)"
        by (rule struct_inv_store_live [OF si False])
      then show ?thesis
        using Store_read_live [OF rk False, of v] ms
        by (simp add: map_inv_def unl nmu)
    qed
  qed
qed

lemma map_inv_init: "map_inv init"
  by (simp add: map_inv_def struct_inv_def init_def len_def)

text \<open>At the largest 64-bit value the counter wraps to the smallest, which is below any
  length, so \<^verbatim>\<open>missLocked\<close> returns without promoting.\<close>

lemma missLocked_at_max:
  "misses s = 2 ^ 63 - 1 \<Longrightarrow> missLocked s = s\<lparr>misses := - (2 ^ 63)\<rparr>"
proof -
  assume m: "misses s = 2 ^ 63 - 1"
  have w: "wrap_int (2 ^ 63 - 1 + 1) = - (2 ^ 63)" by (simp add: wrap_int_def)
  have "- (2 ^ 63) < len (dirty s)"
    using len_nonneg [of "dirty s"] by simp
  with m w show ?thesis by (simp add: missLocked_def Let_def)
qed

subsection \<open>Runs keep the invariant\<close>

lemma map_inv_step: "map_inv s \<Longrightarrow> map_inv (step c s)"
  by (cases c) (simp_all add: map_inv_Load map_inv_Store map_inv_LoadAndDelete map_inv_Delete)

lemma map_inv_run: "map_inv s \<Longrightarrow> map_inv (run cs s)"
  unfolding run_def by (induction cs arbitrary: s) (simp_all add: map_inv_step)

lemma map_inv_reachable: "map_inv (run cs init)"
  by (rule map_inv_run [OF map_inv_init])

lemma index_absent: "\<not> snd (index mp k) \<longleftrightarrow> lk mp k = None"
  by (simp add: index_lk split: option.splits)

subsection \<open>What \<^verbatim>\<open>Load\<close> answers, and which calls keep it\<close>

lemma fst_Load: "\<not> mu s \<Longrightarrow> fst (Load k s) = Load_result s k"
  by (cases "lk (ro_m (read s)) k"; cases "amended (read s)")
     (simp_all add: Load_result_def Load_read Load_fast_absent Load_slow)

lemma Load_result_mu [simp]: "Load_result (s\<lparr>mu := b\<rparr>) k = Load_result s k"
  by (simp add: Load_result_def split: option.splits)

lemma Load_result_misses [simp]: "Load_result (s\<lparr>misses := n\<rparr>) k = Load_result s k"
  by (simp add: Load_result_def split: option.splits)

lemma Load_result_cong:
  assumes "lk (ro_m (read s')) k = lk (ro_m (read s)) k"
    and "amended (read s') = amended (read s)"
    and "lk (dirty s') k = lk (dirty s) k"
    and "\<And>e. lk (ro_m (read s)) k = Some e \<or> lk (dirty s) k = Some e \<Longrightarrow>
           load e (mem s') = load e (mem s)"
  shows "Load_result s' k = Load_result s k"
  using assms by (auto simp: Load_result_def split: option.splits)

lemma load_upd_other: "a \<noteq> a' \<Longrightarrow> load (Some a) (h(a' := p)) = load (Some a) h"
  by (simp add: load_Some)

lemma load_expunge_nil: "load e (expunge_nil es h) = load e h"
  by (cases e) (auto simp: load_Some expunge_nil_apply split: pointer.splits)

lemma Load_result_missLocked:
  assumes si: "struct_inv s" and am: "amended (read s)"
  shows "Load_result (missLocked s) k = Load_result s k"
proof (cases "wrap_int (misses s + 1) < len (dirty s)")
  case True
  then show ?thesis by (simp add: missLocked_def Let_def)
next
  case False
  then have ml: "missLocked s =
      s\<lparr>read := \<lparr>ro_m = dirty s, amended = False\<rparr>, dirty := None, misses := 0\<rparr>"
    by (simp add: missLocked_def Let_def)
  from am inv_amended [OF si] have dn: "dirty s \<noteq> None" by simp
  show ?thesis
  proof (cases "lk (ro_m (read s)) k")
    case None
    then show ?thesis using am by (simp add: ml Load_result_def split: option.splits)
  next
    case (Some e)
    with inv_valid [OF si, of k e] obtain a where e: "e = Some a" by auto
    from Some e have rk: "lk (ro_m (read s)) k = Some (Some a)" by simp
    show ?thesis
    proof (cases "mem s a = Expunged")
      case True
      with inv_read_expunged [OF si rk] show ?thesis
        using rk by (simp add: ml Load_result_def load_Some)
    next
      case False
      with inv_read_live [OF si rk _ dn] show ?thesis
        using rk by (simp add: ml Load_result_def)
    qed
  qed
qed

lemma Load_result_delete_key:
  "k' \<noteq> k \<Longrightarrow> Load_result (s\<lparr>dirty := delete_key (dirty s) k'\<rparr>) k = Load_result s k"
  by (simp add: Load_result_def split: option.splits)

lemma Load_result_Load:
  assumes "map_inv s"
  shows "Load_result (snd (Load k' s)) k = Load_result s k"
proof (cases "lk (ro_m (read s)) k'")
  case None
  show ?thesis
  proof (cases "amended (read s)")
    case True
    then show ?thesis
      using Load_slow [OF None True map_inv_mu [OF assms]]
        Load_result_missLocked [OF map_inv_struct [OF assms] True, of k]
      by simp
  next
    case False
    then show ?thesis using Load_fast_absent [OF None False] by simp
  qed
next
  case (Some e)
  then show ?thesis using Load_read [OF Some] by simp
qed

lemma Load_result_LoadAndDelete:
  assumes "map_inv s" and ne: "k' \<noteq> k"
  shows "Load_result (snd (LoadAndDelete k' s)) k = Load_result s k"
proof (cases "lk (ro_m (read s)) k'")
  case None
  show ?thesis
  proof (cases "amended (read s)")
    case True
    have "struct_inv (s\<lparr>dirty := delete_key (dirty s) k'\<rparr>)"
      by (rule struct_inv_delete_key [OF map_inv_struct [OF assms(1)] None])
    from Load_result_missLocked [OF this, of k] True
    have "Load_result (missLocked (s\<lparr>dirty := delete_key (dirty s) k'\<rparr>)) k = Load_result s k"
      by (simp add: Load_result_delete_key [OF ne])
    then show ?thesis
      using LoadAndDelete_slow [OF None True map_inv_mu [OF assms(1)]]
      by simp
  next
    case False
    then show ?thesis using LoadAndDelete_fast_absent [OF None False] by simp
  qed
next
  case (Some e)
  then show ?thesis using LoadAndDelete_read [OF Some] by simp
qed

lemma entry_of_other_key:
  assumes si: "struct_inv s" and ne: "k' \<noteq> k"
    and e': "lk (ro_m (read s)) k' = Some (Some a') \<or> lk (dirty s) k' = Some (Some a')"
    and e: "lk (ro_m (read s)) k = Some e \<or> lk (dirty s) k = Some e"
  shows "load e (h(a' := p)) = load e h"
proof -
  from inv_valid [OF si e] obtain a where a: "e = Some a" by auto
  have "a \<noteq> a'"
  proof
    assume "a = a'"
    with e a have "lk (ro_m (read s)) k = Some (Some a') \<or> lk (dirty s) k = Some (Some a')" by simp
    from inv_inj [OF si e' this] ne show False by simp
  qed
  then show ?thesis by (simp add: a load_upd_other)
qed

lemma entry_below_nxt:
  assumes si: "struct_inv s"
    and e: "lk (ro_m (read s)) k = Some e \<or> lk (dirty s) k = Some e"
  shows "load e (h(nxt s := p)) = load e h"
proof -
  from inv_valid [OF si e] obtain a where a: "e = Some a" "a < nxt s" by auto
  then show ?thesis by (simp add: load_upd_other)
qed

lemma Load_result_Store_other:
  assumes mi: "map_inv s" and ne: "k' \<noteq> k"
  shows "Load_result (snd (Store k' v s)) k = Load_result s k"
proof -
  note si = map_inv_struct [OF mi]
  note nmu = map_inv_mu [OF mi]
  show ?thesis
  proof (cases "lk (ro_m (read s)) k'")
    case None
    show ?thesis
    proof (cases "dirty s")
      case dn: None
      with inv_amended [OF si] have na: "\<not> amended (read s)" by simp
      have st: "snd (Store k' v s) =
          s\<lparr>mu := False, read := \<lparr>ro_m = ro_m (read s), amended = True\<rparr>,
            dirty := Some (AList.update k' (Some (nxt s))
                       (copy_live (pairs (ro_m (read s))) (mem s) [])),
            mem := (expunge_nil (map snd (pairs (ro_m (read s)))) (mem s))(nxt s := Ref v),
            nxt := nxt s + 1\<rparr>"
        using Store_new_fresh [OF None na dn nmu inv_read_entries [OF si], of v] by simp
      show ?thesis
      proof (cases "lk (ro_m (read s)) k")
        case rn: None
        then show ?thesis
          using na ne by (simp add: st Load_result_def lk_copy_live_Nil [OF inv_distinct_read [OF si]])
      next
        case (Some e)
        have "load e ((expunge_nil (map snd (pairs (ro_m (read s)))) (mem s))(nxt s := Ref v))
            = load e (expunge_nil (map snd (pairs (ro_m (read s)))) (mem s))"
          by (rule entry_below_nxt [OF si, where k = k]) (simp add: Some)
        then have "load e ((expunge_nil (map snd (pairs (ro_m (read s)))) (mem s))(nxt s := Ref v))
            = load e (mem s)"
          by (simp only: load_expunge_nil)
        then show ?thesis using Some by (simp add: st Load_result_def)
      qed
    next
      case (Some d)
      with inv_amended [OF si] have am: "amended (read s)" by simp
      show ?thesis
      proof (cases "lk (dirty s) k'")
        case dk: None
        have st: "snd (Store k' v s) =
            s\<lparr>mu := False, dirty := Some (AList.update k' (Some (nxt s)) d),
              mem := (mem s)(nxt s := Ref v), nxt := nxt s + 1\<rparr>"
          using Store_new_amended [OF None dk am Some nmu, of v] by simp
        show ?thesis
          unfolding st
          by (rule Load_result_cong) (use ne Some entry_below_nxt [OF si, where k = k] in simp_all)
      next
        case (Some e')
        with inv_valid [OF si, of k' e'] obtain a' where "e' = Some a'" by auto
        with Some have dk: "lk (dirty s) k' = Some (Some a')" by simp
        have st: "snd (Store k' v s) = s\<lparr>mu := False, mem := (mem s)(a' := Ref v)\<rparr>"
          using Store_dirty [OF None dk nmu, of v] by simp
        show ?thesis
          unfolding st
          by (rule Load_result_cong) (use entry_of_other_key [OF si ne, where a' = a'] dk in simp_all)
      qed
    qed
  next
    case (Some e')
    with inv_valid [OF si, of k' e'] obtain a' where "e' = Some a'" by auto
    with Some have rk: "lk (ro_m (read s)) k' = Some (Some a')" by simp
    show ?thesis
    proof (cases "mem s a' = Expunged")
      case True
      from inv_read_expunged [OF si rk True] obtain d where d: "dirty s = Some d" by auto
      have st: "snd (Store k' v s) =
          s\<lparr>mu := False, dirty := Some (AList.update k' (Some a') d), mem := (mem s)(a' := Ref v)\<rparr>"
        using Store_read_expunged [OF rk True nmu d, of v] by simp
      show ?thesis
        unfolding st
        by (rule Load_result_cong) (use ne d entry_of_other_key [OF si ne, where a' = a'] rk in simp_all)
    next
      case False
      have st: "snd (Store k' v s) = s\<lparr>mem := (mem s)(a' := Ref v)\<rparr>"
        using Store_read_live [OF rk False, of v] by simp
      show ?thesis
        unfolding st
        by (rule Load_result_cong) (use entry_of_other_key [OF si ne, where a' = a'] rk in simp_all)
    qed
  qed
qed

lemma Load_result_Store_same:
  assumes mi: "map_inv s"
  shows "Load_result (snd (Store k v s)) k = Inr (v, True)"
proof -
  note si = map_inv_struct [OF mi]
  note nmu = map_inv_mu [OF mi]
  show ?thesis
  proof (cases "lk (ro_m (read s)) k")
    case None
    show ?thesis
    proof (cases "dirty s")
      case dn: None
      with inv_amended [OF si] have na: "\<not> amended (read s)" by simp
      show ?thesis
        using Store_new_fresh [OF None na dn nmu inv_read_entries [OF si], of v] None
        by (simp add: Load_result_def load_Some)
    next
      case (Some d)
      with inv_amended [OF si] have am: "amended (read s)" by simp
      show ?thesis
      proof (cases "lk (dirty s) k")
        case dk: None
        show ?thesis
          using Store_new_amended [OF None dk am Some nmu, of v] None am
          by (simp add: Load_result_def load_Some)
      next
        case (Some e)
        with inv_valid [OF si, of k e] obtain a where "e = Some a" by auto
        with Some have dk: "lk (dirty s) k = Some (Some a)" by simp
        show ?thesis
          using Store_dirty [OF None dk nmu, of v] None am dk
          by (simp add: Load_result_def load_Some)
      qed
    qed
  next
    case (Some e)
    with inv_valid [OF si, of k e] obtain a where "e = Some a" by auto
    with Some have rk: "lk (ro_m (read s)) k = Some (Some a)" by simp
    show ?thesis
    proof (cases "mem s a = Expunged")
      case True
      from inv_read_expunged [OF si rk True] obtain d where d: "dirty s = Some d" by auto
      show ?thesis
        using Store_read_expunged [OF rk True nmu d, of v] rk
        by (simp add: Load_result_def load_Some)
    next
      case False
      show ?thesis
        using Store_read_live [OF rk False, of v] rk
        by (simp add: Load_result_def load_Some)
    qed
  qed
qed

lemma Load_result_step:
  assumes "map_inv s" and "\<not> writes k c"
  shows "Load_result (step c s) k = Load_result s k"
  using assms
  by (cases c)
     (simp_all add: Load_result_Load Load_result_Store_other Load_result_LoadAndDelete snd_Delete)

lemma Load_result_run:
  "map_inv s \<Longrightarrow> \<forall>c \<in> set cs. \<not> writes k c \<Longrightarrow> Load_result (run cs s) k = Load_result s k"
proof (induction cs arbitrary: s)
  case Nil
  then show ?case by (simp add: run_def)
next
  case (Cons c cs)
  have "run (c # cs) s = run cs (step c s)" by (simp add: run_def)
  moreover have "Load_result (run cs (step c s)) k = Load_result (step c s) k"
    using Cons.IH [OF map_inv_step [OF Cons.prems(1)]] Cons.prems(2) by simp
  moreover have "Load_result (step c s) k = Load_result s k"
    using Load_result_step [OF Cons.prems(1)] Cons.prems(2) by simp
  ultimately show ?case by simp
qed

lemma dirtyLocked_eq:
  assumes "dirty s = None" and "\<forall>(k, e) \<in> set (pairs (ro_m (read s))). e \<noteq> None"
  shows "dirtyLocked s =
    (Inr (), s\<lparr>dirty := Some (copy_live (pairs (ro_m (read s))) (mem s) []),
               mem := expunge_nil (map snd (pairs (ro_m (read s)))) (mem s)\<rparr>)"
  using assms dirtyLocked_range_eq [of "pairs (ro_m (read s))" "s\<lparr>dirty := Some []\<rparr>" "[]"]
  by (simp add: dirtyLocked_def Let_def)

section \<open>The claims\<close>

text \<open>
  C1. \<^verbatim>\<open>LoadAndDelete(k)\<close> on a present key should return the value and true and leave the
  key absent; on an absent key it should return false and change nothing. The code does
  neither. After \<^verbatim>\<open>Store(1, 10); Load(1)\<close> the key 1 sits in the read map with a live
  entry: \<^verbatim>\<open>LoadAndDelete(1)\<close> returns \<^verbatim>\<open>nil, false\<close> and a following \<^verbatim>\<open>Load(1)\<close> still
  finds 10. On the empty map \<^verbatim>\<open>LoadAndDelete(1)\<close> panics with a nil dereference.
\<close>

theorem LoadAndDelete_returns_not_loaded:
  "fst (LoadAndDelete (1::nat) (run [OpStore 1 (Some (10::nat)), OpLoad 1] init)) = Inr (None, False)
   \<and> fst (Load (1::nat) (snd (LoadAndDelete 1 (run [OpStore 1 (Some (10::nat)), OpLoad 1] init))))
       = Inr (Some 10, True)
   \<and> fst (LoadAndDelete (1::nat) (init :: (nat, nat) state)) = Inl NilPointerDereference"
  by code_simp

text \<open>
  C2. After \<^verbatim>\<open>Delete(k)\<close>, \<^verbatim>\<open>Load(k)\<close> should report the key as not found. In the code,
  after \<^verbatim>\<open>Store(1, 10); Load(1); Delete(1)\<close> the call \<^verbatim>\<open>Load(1)\<close> returns \<^verbatim>\<open>10, true\<close>.
\<close>

theorem Delete_then_Load_still_found:
  "fst (Load (1::nat) (run [OpStore 1 (Some (10::nat)), OpLoad 1, OpDelete 1] init))
     = Inr (Some 10, True)"
  by code_simp

text \<open>
  C3. After \<^verbatim>\<open>Store(k, v)\<close>, in any state a run reaches from the zero map, \<^verbatim>\<open>Load(k)\<close>
  returns \<^verbatim>\<open>v, true\<close>, also after any further calls that neither store to \<open>k\<close> nor
  delete \<open>k\<close>: loads of any key, stores and deletions of other keys.
\<close>

theorem Store_then_Load:
  "\<forall>c \<in> set cs'. \<not> writes k c \<Longrightarrow>
   fst (Load k (run cs' (snd (Store k v (run cs init))))) = Inr (v, True)"
proof -
  assume nw: "\<forall>c \<in> set cs'. \<not> writes k c"
  have mi: "map_inv (snd (Store k v (run cs init)))"
    by (rule map_inv_Store [OF map_inv_reachable])
  have "fst (Load k (run cs' (snd (Store k v (run cs init)))))
      = Load_result (run cs' (snd (Store k v (run cs init)))) k"
    by (rule fst_Load [OF map_inv_mu [OF map_inv_run [OF mi]]])
  also have "\<dots> = Load_result (snd (Store k v (run cs init))) k"
    by (rule Load_result_run [OF mi nw])
  also have "\<dots> = Inr (v, True)"
    by (rule Load_result_Store_same [OF map_inv_reachable])
  finally show ?thesis .
qed

theorem Store_then_Load_witness:
  "list_all (\<lambda>c. \<not> writes (1::nat) c)
     [OpLoad 1, OpStore 2 (Some (5::nat)), OpDelete 2, OpLoad 3, OpLoadAndDelete 4]
   \<and> fst (Load (1::nat)
        (run [OpLoad 1, OpStore 2 (Some (5::nat)), OpDelete 2, OpLoad 3, OpLoadAndDelete 4]
          (snd (Store 1 (Some 10) (run [OpStore 2 (Some 20), OpLoad 2, OpDelete 1] init)))))
     = Inr (Some 10, True)"
proof -
  have h: "\<forall>c \<in> set [OpLoad 1, OpStore 2 (Some (5::nat)), OpDelete 2, OpLoad 3, OpLoadAndDelete 4].
             \<not> writes (1::nat) c"
    by simp
  from Store_then_Load [OF h, of "Some 10" "[OpStore 2 (Some 20), OpLoad 2, OpDelete 1]"]
  show ?thesis by simp
qed

text \<open>
  C4. \<^verbatim>\<open>missLocked\<close> increments the miss counter, as a 64-bit machine integer, and
  returns while the new counter is below the length of the dirty map; otherwise it
  publishes the dirty map as the read map with \<^verbatim>\<open>amended\<close> false, sets the dirty map to
  nil and the counter to zero. When the counter is a 64-bit value other than the largest,
  the increment is exact: the new counter is the old one plus one. In every state that a
  run reaches from the zero map, the miss counter is at most the length of the dirty map.
\<close>

theorem missLocked_promotion:
  "missLocked s =
     (if wrap_int (misses s + 1) < len (dirty s) then s\<lparr>misses := wrap_int (misses s + 1)\<rparr>
      else s\<lparr>read := \<lparr>ro_m = dirty s, amended = False\<rparr>, dirty := None, misses := 0\<rparr>)
   \<and> (- (2 ^ 63) \<le> misses s \<and> misses s < 2 ^ 63 - 1 \<longrightarrow>
        missLocked s =
          (if misses s + 1 < len (dirty s) then s\<lparr>misses := misses s + 1\<rparr>
           else s\<lparr>read := \<lparr>ro_m = dirty s, amended = False\<rparr>, dirty := None, misses := 0\<rparr>))
   \<and> misses (run cs init) \<le> len (dirty (run cs (init :: ('k, 'v) state)))"
proof (intro conjI impI)
  show "missLocked s =
     (if wrap_int (misses s + 1) < len (dirty s) then s\<lparr>misses := wrap_int (misses s + 1)\<rparr>
      else s\<lparr>read := \<lparr>ro_m = dirty s, amended = False\<rparr>, dirty := None, misses := 0\<rparr>)"
    by (simp add: missLocked_def Let_def)
  show "missLocked s =
          (if misses s + 1 < len (dirty s) then s\<lparr>misses := misses s + 1\<rparr>
           else s\<lparr>read := \<lparr>ro_m = dirty s, amended = False\<rparr>, dirty := None, misses := 0\<rparr>)"
    if "- (2 ^ 63) \<le> misses s \<and> misses s < 2 ^ 63 - 1"
  proof -
    from that have "wrap_int (misses s + 1) = misses s + 1"
      by (intro wrap_int_exact) simp_all
    then show ?thesis by (simp add: missLocked_def Let_def)
  qed
  show "misses (run cs init) \<le> len (dirty (run cs (init :: ('k, 'v) state)))"
    by (rule map_inv_misses [OF map_inv_reachable])
qed

theorem missLocked_promotion_witness:
  "- (2 ^ 63) \<le> misses (run [OpStore (5::nat) (Some (10::nat)), OpStore 6 (Some 20)] init)
   \<and> misses (run [OpStore (5::nat) (Some (10::nat)), OpStore 6 (Some 20)] init) < 2 ^ 63 - 1
   \<and> missLocked (run [OpStore (5::nat) (Some (10::nat)), OpStore 6 (Some 20)] init) =
       (run [OpStore (5::nat) (Some (10::nat)), OpStore 6 (Some 20)] init)\<lparr>misses := 1\<rparr>
   \<and> missLocked (run [OpStore (5::nat) (Some (10::nat))] init) =
       (run [OpStore (5::nat) (Some (10::nat))] init)
         \<lparr>read := \<lparr>ro_m = Some [(5, Some 0)], amended = False\<rparr>, dirty := None, misses := 0\<rparr>
   \<and> misses (run [OpStore (5::nat) (Some (10::nat)), OpStore 6 (Some 20), OpLoad 7] init)
       \<le> len (dirty (run [OpStore (5::nat) (Some (10::nat)), OpStore 6 (Some 20), OpLoad 7] init))
   \<and> misses (run [OpStore (5::nat) (Some (10::nat)), OpStore 6 (Some 20), OpLoad 7] init) = 1"
proof -
  let ?s2 = "run [OpStore (5::nat) (Some (10::nat)), OpStore 6 (Some 20)] init"
  let ?s1 = "run [OpStore (5::nat) (Some (10::nat))] init"
  let ?cs = "[OpStore (5::nat) (Some (10::nat)), OpStore 6 (Some 20), OpLoad 7]"
  have m2: "misses ?s2 = 0" and l2: "len (dirty ?s2) = 2"
    and m1: "misses ?s1 = 0" and d1: "dirty ?s1 = Some [(5, Some 0)]"
    and m3: "misses (run ?cs init) = 1"
    by code_simp+
  have b: "- (2 ^ 63) \<le> misses ?s2 \<and> misses ?s2 < 2 ^ 63 - 1"
    by (simp add: m2)
  have b1: "- (2 ^ 63) \<le> misses ?s1 \<and> misses ?s1 < 2 ^ 63 - 1"
    by (simp add: m1)
  from missLocked_promotion [of ?s2 ?cs, THEN conjunct2, THEN conjunct1, rule_format, OF b]
  have r2: "missLocked ?s2 = ?s2\<lparr>misses := 1\<rparr>"
    by (simp add: m2 l2)
  from missLocked_promotion [of ?s1 ?cs, THEN conjunct2, THEN conjunct1, rule_format, OF b1]
  have r1: "missLocked ?s1 =
      ?s1\<lparr>read := \<lparr>ro_m = Some [(5, Some 0)], amended = False\<rparr>, dirty := None, misses := 0\<rparr>"
    by (simp add: m1 d1 len_def)
  from missLocked_promotion [of ?s2 ?cs, THEN conjunct2, THEN conjunct2]
  have r3: "misses (run ?cs init) \<le> len (dirty (run ?cs init))" .
  from b r2 r1 r3 m3 show ?thesis by blast
qed

text \<open>
  C5. When \<^verbatim>\<open>dirtyLocked\<close> runs with a nil dirty map, over a read map with unique keys
  and non-nil entries, it returns without a panic and leaves a dirty map such that, for
  every pair of the read map: an entry whose pointer was nil is now expunged and its key
  is not in the dirty map; an expunged entry stays expunged and out of the dirty map; an
  entry with a value keeps it and is in the dirty map under its key. No entry of the new
  dirty map is expunged.
\<close>

theorem dirtyLocked_rebuild:
  assumes dn: "dirty s = None"
    and dist: "distinct (map fst (pairs (ro_m (read s))))"
    and nn: "\<forall>(k, e) \<in> set (pairs (ro_m (read s))). e \<noteq> None"
  shows "fst (dirtyLocked s) = Inr () \<and>
     dirty (snd (dirtyLocked s)) \<noteq> None \<and>
     read (snd (dirtyLocked s)) = read s \<and>
     (\<forall>k a. (k, Some a) \<in> set (pairs (ro_m (read s))) \<longrightarrow>
        (case mem s a of
           Nil \<Rightarrow> mem (snd (dirtyLocked s)) a = Expunged \<and>
                  index (dirty (snd (dirtyLocked s))) k = (None, False)
         | Expunged \<Rightarrow> mem (snd (dirtyLocked s)) a = Expunged \<and>
                  index (dirty (snd (dirtyLocked s))) k = (None, False)
         | Ref v \<Rightarrow> mem (snd (dirtyLocked s)) a = Ref v \<and>
                  index (dirty (snd (dirtyLocked s))) k = (Some a, True))) \<and>
     (\<forall>k e. (k, e) \<in> set (pairs (dirty (snd (dirtyLocked s)))) \<longrightarrow>
        (\<exists>a. e = Some a \<and> mem (snd (dirtyLocked s)) a \<noteq> Expunged))"
proof -
  let ?al = "pairs (ro_m (read s))"
  let ?s' = "s\<lparr>dirty := Some (copy_live ?al (mem s) []),
               mem := expunge_nil (map snd ?al) (mem s)\<rparr>"
  have eq: "dirtyLocked s = (Inr (), ?s')" by (rule dirtyLocked_eq [OF dn nn])
  note lkc = lk_copy_live_Nil [OF dist]
  have copied: "case mem s a of
           Nil \<Rightarrow> mem ?s' a = Expunged \<and> index (dirty ?s') k = (None, False)
         | Expunged \<Rightarrow> mem ?s' a = Expunged \<and> index (dirty ?s') k = (None, False)
         | Ref v \<Rightarrow> mem ?s' a = Ref v \<and> index (dirty ?s') k = (Some a, True)"
    if "(k, Some a) \<in> set ?al" for k a
  proof -
    from that dist have rk: "lk (ro_m (read s)) k = Some (Some a)" by (simp add: lk_def)
    from that have "Some a \<in> set (map snd ?al)" by force
    with rk show ?thesis
      by (cases "mem s a") (simp_all add: index_lk lkc live_Some expunge_nil_apply)
  qed
  have members: "\<exists>a. e = Some a \<and> mem ?s' a \<noteq> Expunged" if "(k, e) \<in> set (pairs (dirty ?s'))" for k e
  proof -
    have "distinct (map fst (copy_live ?al (mem s) []))" by (simp add: distinct_copy_live)
    with that have "lk (Some (copy_live ?al (mem s) [])) k = Some e" by (simp add: lk_def)
    then have "live e (mem s)" by (simp add: lkc split: option.splits if_splits)
    then obtain a v where "e = Some a" "mem s a = Ref v"
      by (cases e) (auto simp: live_def split: pointer.splits)
    then show ?thesis by (simp add: expunge_nil_apply)
  qed
  have res: "fst (dirtyLocked s) = Inr ()" "snd (dirtyLocked s) = ?s'"
    by (simp_all add: eq)
  show ?thesis
    unfolding res
    apply (intro conjI allI impI)
        apply simp
       apply simp
      apply simp
     apply (erule copied)
    apply (erule members)
    done
qed

theorem dirtyLocked_rebuild_witness:
  "fst (dirtyLocked rebuild_example) = Inr ()
   \<and> mem (snd (dirtyLocked rebuild_example)) 4 = Expunged
   \<and> index (dirty (snd (dirtyLocked rebuild_example))) 11 = (None, False)
   \<and> mem (snd (dirtyLocked rebuild_example)) 5 = Expunged
   \<and> index (dirty (snd (dirtyLocked rebuild_example))) 12 = (None, False)
   \<and> mem (snd (dirtyLocked rebuild_example)) 6 = Ref (Some 7)
   \<and> index (dirty (snd (dirtyLocked rebuild_example))) 13 = (Some 6, True)"
proof -
  have h1: "dirty rebuild_example = None"
    by (simp add: rebuild_example_def)
  have h2: "distinct (map fst (pairs (ro_m (read rebuild_example))))"
    by (simp add: rebuild_example_def)
  have h3: "\<forall>(k, e) \<in> set (pairs (ro_m (read rebuild_example))). e \<noteq> None"
    by (simp add: rebuild_example_def)
  note t = dirtyLocked_rebuild [OF h1 h2 h3]
  note each = t [THEN conjunct2, THEN conjunct2, THEN conjunct2, THEN conjunct1, rule_format]
  have m: "(11, Some 4) \<in> set (pairs (ro_m (read rebuild_example)))"
    "(12, Some 5) \<in> set (pairs (ro_m (read rebuild_example)))"
    "(13, Some 6) \<in> set (pairs (ro_m (read rebuild_example)))"
    by (simp_all add: rebuild_example_def)
  have v: "mem rebuild_example 4 = Nil" "mem rebuild_example 5 = Expunged"
    "mem rebuild_example 6 = Ref (Some 7)"
    by (simp_all add: rebuild_example_def)
  from each [OF m(1)] each [OF m(2)] each [OF m(3)] t [THEN conjunct1]
  show ?thesis by (simp add: v)
qed

text \<open>
  C6. For every entry, \<^verbatim>\<open>tryStore(i)\<close> returns true and leaves the entry pointing to the
  value exactly when the entry is not expunged; on an expunged entry it returns false
  and the memory is unchanged.
\<close>

theorem tryStore_unless_expunged:
  "tryStore (Some a) i h =
     (if h a \<noteq> Expunged then Inr (True, h(a := Ref i)) else Inr (False, h))"
  by (simp add: tryStore_Some)

theorem tryStore_unless_expunged_witness:
  "tryStore (Some 0) (Some (7::nat)) ((\<lambda>_. Nil)(0 := Ref (Some 3)))
     = Inr (True, (\<lambda>_. Nil)(0 := Ref (Some 7)))
   \<and> tryStore (Some 0) (Some (7::nat)) ((\<lambda>_. Nil)(0 := Expunged))
     = Inr (False, (\<lambda>_. Nil)(0 := Expunged))"
  using tryStore_unless_expunged [of 0 "Some (7::nat)" "(\<lambda>_. Nil)(0 := Ref (Some 3))"]
    tryStore_unless_expunged [of 0 "Some (7::nat)" "(\<lambda>_. Nil)(0 := Expunged)"]
  by simp

text \<open>
  C7. When the key is not in the read map and \<^verbatim>\<open>amended\<close> is false, \<^verbatim>\<open>Load\<close> returns
  \<^verbatim>\<open>nil, false\<close> and the whole state is as before: the miss counter is not incremented,
  the result does not depend on the dirty map, and the call returns even when the mutex
  is held, so it never asks for the lock.
\<close>

theorem Load_fast_path:
  "snd (index (ro_m (read s)) k) = False \<Longrightarrow> \<not> amended (read s) \<Longrightarrow>
   Load k s = (Inr (None, False), s)"
  by (simp add: index_absent Load_fast_absent)

theorem Load_fast_path_witness:
  "snd (index (ro_m (read \<lparr>mu = True, read = \<lparr>ro_m = Some [(2::nat, Some 0)], amended = False\<rparr>,
                            dirty = Some [(1, Some 1)], misses = 0,
                            mem = (\<lambda>_. Nil)(1 := Ref (Some (5::nat))), nxt = 2\<rparr>)) 1) = False
   \<and> \<not> amended (read \<lparr>mu = True, read = \<lparr>ro_m = Some [(2::nat, Some 0)], amended = False\<rparr>,
                       dirty = Some [(1, Some 1)], misses = 0,
                       mem = (\<lambda>_. Nil)(1 := Ref (Some (5::nat))), nxt = 2\<rparr>)
   \<and> Load 1 \<lparr>mu = True, read = \<lparr>ro_m = Some [(2::nat, Some 0)], amended = False\<rparr>,
              dirty = Some [(1, Some 1)], misses = 0,
              mem = (\<lambda>_. Nil)(1 := Ref (Some (5::nat))), nxt = 2\<rparr>
       = (Inr (None, False),
          \<lparr>mu = True, read = \<lparr>ro_m = Some [(2::nat, Some 0)], amended = False\<rparr>,
           dirty = Some [(1, Some 1)], misses = 0,
           mem = (\<lambda>_. Nil)(1 := Ref (Some (5::nat))), nxt = 2\<rparr>)"
proof -
  let ?s = "\<lparr>mu = True, read = \<lparr>ro_m = Some [(2::nat, Some 0)], amended = False\<rparr>,
             dirty = Some [(1, Some 1)], misses = 0,
             mem = (\<lambda>_. Nil)(1 := Ref (Some (5::nat))), nxt = 2\<rparr>"
  have a: "snd (index (ro_m (read ?s)) 1) = False" by (simp add: index_def)
  have b: "\<not> amended (read ?s)" by simp
  from a b Load_fast_path [OF a b] show ?thesis by simp
qed

text \<open>
  C8. When \<^verbatim>\<open>LoadAndDelete(k)\<close> takes the locked path (the key is not in the read map,
  \<^verbatim>\<open>amended\<close> is true and the lock is free), the state it leaves is the state before
  with \<open>k\<close> deleted from the dirty map, then \<^verbatim>\<open>missLocked\<close>, then the unlock; the dirty
  map it leaves has no \<open>k\<close>. This holds whether or not \<open>k\<close> was in the dirty map.
\<close>

theorem LoadAndDelete_slow_path:
  assumes "snd (index (ro_m (read s)) k) = False" and "amended (read s)" and "\<not> mu s"
  shows "snd (LoadAndDelete k s) = Unlock (missLocked (s\<lparr>dirty := delete_key (dirty s) k\<rparr>)) \<and>
   index (dirty (snd (LoadAndDelete k s))) k = (None, False)"
proof -
  from assms(1) have "lk (ro_m (read s)) k = None" by (simp add: index_absent)
  from LoadAndDelete_slow [OF this assms(2,3)] show ?thesis
    by (simp add: Unlock_def index_lk missLocked_def Let_def)
qed

theorem LoadAndDelete_slow_path_witness:
  "snd (index (ro_m (read (run [OpStore (1::nat) (Some (10::nat)), OpStore 2 (Some 20)] init))) 1) = False
   \<and> amended (read (run [OpStore (1::nat) (Some (10::nat)), OpStore 2 (Some 20)] init))
   \<and> \<not> mu (run [OpStore (1::nat) (Some (10::nat)), OpStore 2 (Some 20)] init)
   \<and> index (dirty (run [OpStore (1::nat) (Some (10::nat)), OpStore 2 (Some 20)] init)) 1 = (Some 0, True)
   \<and> index (dirty (run [OpStore (1::nat) (Some (10::nat)), OpStore 2 (Some 20)] init)) 3 = (None, False)
   \<and> index (dirty (snd (LoadAndDelete 1
         (run [OpStore (1::nat) (Some (10::nat)), OpStore 2 (Some 20)] init)))) 1 = (None, False)
   \<and> snd (LoadAndDelete 3 (run [OpStore (1::nat) (Some (10::nat)), OpStore 2 (Some 20)] init))
       = Unlock (missLocked ((run [OpStore (1::nat) (Some (10::nat)), OpStore 2 (Some 20)] init)
           \<lparr>dirty := delete_key
              (dirty (run [OpStore (1::nat) (Some (10::nat)), OpStore 2 (Some 20)] init)) 3\<rparr>))
   \<and> misses (snd (LoadAndDelete 3
         (run [OpStore (1::nat) (Some (10::nat)), OpStore 2 (Some 20)] init))) = 1"
proof -
  let ?s = "run [OpStore (1::nat) (Some (10::nat)), OpStore 2 (Some 20)] init"
  have a1: "snd (index (ro_m (read ?s)) 1) = False" by code_simp
  have a3: "snd (index (ro_m (read ?s)) 3) = False" by code_simp
  have b: "amended (read ?s)" by code_simp
  have c: "\<not> mu ?s" by code_simp
  have d: "index (dirty ?s) 1 = (Some 0, True)" "index (dirty ?s) 3 = (None, False)"
    "misses (snd (LoadAndDelete 3 ?s)) = 1"
    by code_simp+
  from LoadAndDelete_slow_path [OF a1 b c] LoadAndDelete_slow_path [OF a3 b c] a1 b c d
  show ?thesis by blast
qed

text \<open>
  C9. In every state that a run reaches from the zero map, \<^verbatim>\<open>amended\<close> true implies that
  the dirty map is not nil.
\<close>

theorem amended_implies_dirty:
  "amended (read (run cs init)) \<longrightarrow> dirty (run cs (init :: ('k, 'v) state)) \<noteq> None"
  using inv_amended [OF map_inv_struct [OF map_inv_reachable], of cs] by simp

theorem amended_implies_dirty_witness:
  "amended (read (run [OpStore (1::nat) (Some (10::nat))] init))
   \<and> dirty (run [OpStore (1::nat) (Some (10::nat))] init) \<noteq> None"
proof -
  have h: "amended (read (run [OpStore (1::nat) (Some (10::nat))] init))"
    by code_simp
  with amended_implies_dirty [of "[OpStore (1::nat) (Some (10::nat))]"] show ?thesis
    by blast
qed

text \<open>
  C10. \<^verbatim>\<open>Load\<close> never changes an entry: the memory of entry pointers is the same before
  and after, no entry is allocated, and the state after differs from the state before in
  at most the read map, the dirty map and the miss counter.
\<close>

theorem Load_frame:
  "mem (snd (Load k s)) = mem s \<and> nxt (snd (Load k s)) = nxt s \<and> mu (snd (Load k s)) = mu s \<and>
   snd (Load k s) =
     s\<lparr>read := read (snd (Load k s)), dirty := dirty (snd (Load k s)),
       misses := misses (snd (Load k s))\<rparr>"
proof (cases "lk (ro_m (read s)) k")
  case None
  show ?thesis
  proof (cases "amended (read s)")
    case True
    show ?thesis
    proof (cases "mu s")
      case True
      with Load_blocked [OF None \<open>amended (read s)\<close>] show ?thesis by simp
    next
      case False
      with Load_slow [OF None True] show ?thesis
        by (simp add: missLocked_def Let_def)
    qed
  next
    case False
    with Load_fast_absent [OF None] show ?thesis by simp
  qed
next
  case (Some e)
  with Load_read [OF Some] show ?thesis by simp
qed

theorem Load_frame_witness:
  "mem (snd (Load (1::nat) (run [OpStore 1 (Some (10::nat))] init)))
     = mem (run [OpStore (1::nat) (Some (10::nat))] init)
   \<and> read (snd (Load (1::nat) (run [OpStore 1 (Some (10::nat))] init)))
     = \<lparr>ro_m = Some [(1, Some 0)], amended = False\<rparr>
   \<and> read (run [OpStore (1::nat) (Some (10::nat))] init) = \<lparr>ro_m = None, amended = True\<rparr>"
proof -
  have "read (snd (Load (1::nat) (run [OpStore 1 (Some (10::nat))] init)))
     = \<lparr>ro_m = Some [(1, Some 0)], amended = False\<rparr>"
    "read (run [OpStore (1::nat) (Some (10::nat))] init) = \<lparr>ro_m = None, amended = True\<rparr>"
    by code_simp+
  with Load_frame [of 1 "run [OpStore (1::nat) (Some (10::nat))] init"]
  show ?thesis by blast
qed

end
